theory Spec2Isabelle
  imports Complex_Main "HOL-Library.Word" "HOL-Library.Log_Nat"
begin

section \<open>Kinetic text: TextScramble and WordRotator\<close>

text \<open>
  A shallow embedding of the kinetic-text module (the classes \<^verbatim>\<open>TextScramble\<close> and
  \<^verbatim>\<open>WordRotator\<close> and the word-rotation branch of \<^verbatim>\<open>initKineticText\<close>).

  \<^item> A JavaScript string is a list of UTF-16 code units; \<^verbatim>\<open>s[i]\<close> is a string of one
    code unit, or \<^verbatim>\<open>undefined\<close> out of range.
  \<^item> \<^verbatim>\<open>Math.random()\<close> is an explicit supply of numbers: the head of the supply is the
    next result, the tail is the supply afterwards. A number is the real value of an IEEE
    binary64 double, and a product such as \<^verbatim>\<open>Math.random() * 40\<close> is the exact product
    rounded to the nearest double, ties to even (\<open>fmul\<close>).
  \<^item> The host's facilities are an explicit record \<open>env\<close>: the animation-frame callbacks
    that are scheduled, the promises created and the calls of their resolve functions, the
    \<^verbatim>\<open>then\<close> reactions and the microtask queue, the timers.
  \<^item> The DOM element is the markup last written to it (\<^verbatim>\<open>innerHTML\<close>); what
    \<^verbatim>\<open>textContent\<close> reads back from a markup is the browser's business and is a parameter
    \<open>tc\<close> of every operation that reads it.
  \<^item> A \<^verbatim>\<open>TypeError\<close> is a value: fallible operations return \<open>error + 'a\<close>.
\<close>

subsection \<open>Strings and values\<close>

type_synonym jschar = "16 word"
type_synonym jsstring = "jschar list"

datatype error = TypeError

text \<open>What the rotator passes to \<^verbatim>\<open>setText\<close>: a string, or \<^verbatim>\<open>undefined\<close>.\<close>

datatype jsval = Undefined | Str jsstring

definition js :: "string \<Rightarrow> jsstring" where
  "js s = map of_char s"

text \<open>\<^verbatim>\<open>s[i] || ''\<close>: the code unit at \<open>i\<close> as a string, the empty string out of range.\<close>

definition char_or_empty :: "jsstring \<Rightarrow> nat \<Rightarrow> jsstring" where
  "char_or_empty s i = (if i < length s then [s ! i] else [])"

text \<open>\<^verbatim>\<open>this.chars[k]\<close>: \<^verbatim>\<open>undefined\<close> (\<open>None\<close>) out of range.\<close>

definition char_at :: "jsstring \<Rightarrow> int \<Rightarrow> jschar option" where
  "char_at s k = (if 0 \<le> k \<and> k < int (length s) then Some (s ! nat k) else None)"

text \<open>\<^verbatim>\<open>words[i]\<close>: \<^verbatim>\<open>undefined\<close> out of range.\<close>

definition word_at :: "jsstring list \<Rightarrow> int \<Rightarrow> jsval" where
  "word_at ws k = (if 0 \<le> k \<and> k < int (length ws) then Str (ws ! nat k) else Undefined)"

text \<open>
  \<^verbatim>\<open>this.chars = '!<>-_\\/[]{}\<emdash>=+*^?#'\<close>, assigned once by the constructor: eighteen code
  units, the twelfth being U+2014 (8212).
\<close>

definition chars :: jsstring where
  "chars = [33, 60, 62, 45, 95, 92, 47, 91, 93, 123, 125, 8212, 61, 43, 42, 94, 63, 35]"

subsection \<open>Doubles\<close>

text \<open>
  The spacing of the doubles around a real \<open>x\<close> with \<open>0 \<le> x < 2^1024\<close>: for
  \<open>2^e \<le> x < 2^(e+1)\<close> it is \<open>2^(e-52)\<close>, and \<open>2^(-1074)\<close> below \<open>2^(-1022)\<close>. The
  exponent is read off the bit length of \<open>x\<close> scaled by \<open>2^1074\<close>.
\<close>

definition ulp64 :: "real \<Rightarrow> real" where
  "ulp64 x = 2 powi (max (bitlen \<lfloor>x * 2 powi 1074\<rfloor> - 1075) (- 1022) - 52)"

text \<open>Rounding to the nearest integer, a tie going to the even one.\<close>

definition round_half_even :: "real \<Rightarrow> int" where
  "round_half_even q =
     (let n = \<lfloor>q\<rfloor>; d = q - of_int n
      in if d < 1 / 2 then n else if 1 / 2 < d then n + 1 else if even n then n else n + 1)"

text \<open>
  The double nearest to \<open>x\<close>, ties to even, for \<open>0 \<le> x < 2^1024\<close> (the products of this
  program are below 64). A real is a double when \<open>round64\<close> leaves it as it is.
\<close>

definition round64 :: "real \<Rightarrow> real" where
  "round64 x = of_int (round_half_even (x / ulp64 x)) * ulp64 x"

text \<open>JavaScript's \<^verbatim>\<open>a * b\<close> on two doubles whose product is not negative.\<close>

definition fmul :: "real \<Rightarrow> real \<Rightarrow> real" where
  "fmul a b = round64 (a * b)"

subsection \<open>The host environment\<close>

type_synonym rng = "nat \<Rightarrow> real"

record env =
  random :: rng
  raf_count :: nat
  raf_pending :: "nat list"
  promises :: nat
  resolved :: "nat list"
  reactions :: "nat list"
  microtasks :: "nat list"
  timer_count :: nat
  timers :: "nat list"

text \<open>
  \<open>random\<close>: the results \<^verbatim>\<open>Math.random()\<close> has still to give.
  \<open>raf_pending\<close>: the handles of the animation-frame callbacks that are scheduled (the
  callback is always the scrambler's \<^verbatim>\<open>update\<close>); \<open>raf_count\<close>: the next handle.
  \<open>promises\<close>: how many promises \<^verbatim>\<open>setText\<close> has created; a promise is its number.
  \<open>resolved\<close>: the promise of every call of a resolve function, in order.
  \<open>reactions\<close>: the promises with a \<^verbatim>\<open>then\<close> callback waiting for fulfilment;
  \<open>microtasks\<close>: the \<^verbatim>\<open>then\<close> callbacks queued to run (the callback is always the
  rotator's). \<open>timers\<close>: the timeouts that are scheduled (the callback is always
  \<^verbatim>\<open>() => this.next()\<close>); \<open>timer_count\<close>: the next timer id.
\<close>

definition env0 :: "rng \<Rightarrow> env" where
  "env0 g = \<lparr>random = g, raf_count = 0, raf_pending = [], promises = 0, resolved = [],
             reactions = [], microtasks = [], timer_count = 0, timers = []\<rparr>"

definition Math_random :: "rng \<Rightarrow> real \<times> rng" where
  "Math_random g = (g 0, \<lambda>n. g (Suc n))"

definition requestAnimationFrame :: "env \<Rightarrow> nat \<times> env" where
  "requestAnimationFrame e =
     (raf_count e, e\<lparr>raf_count := Suc (raf_count e), raf_pending := raf_pending e @ [raf_count e]\<rparr>)"

definition cancelAnimationFrame :: "nat option \<Rightarrow> env \<Rightarrow> env" where
  "cancelAnimationFrame h e =
     (case h of None \<Rightarrow> e | Some k \<Rightarrow> e\<lparr>raf_pending := filter (\<lambda>x. x \<noteq> k) (raf_pending e)\<rparr>)"

definition new_Promise :: "env \<Rightarrow> nat \<times> env" where
  "new_Promise e = (promises e, e\<lparr>promises := Suc (promises e)\<rparr>)"

text \<open>
  A call of the resolve function of promise \<open>p\<close>. The call is recorded; the first one
  fulfils the promise and queues its waiting reactions, a later one changes nothing else.
\<close>

definition call_resolve :: "nat \<Rightarrow> env \<Rightarrow> env" where
  "call_resolve p e =
     (if p \<in> set (resolved e) then e\<lparr>resolved := resolved e @ [p]\<rparr>
      else e\<lparr>resolved := resolved e @ [p],
             microtasks := microtasks e @ filter (\<lambda>q. q = p) (reactions e),
             reactions := filter (\<lambda>q. q \<noteq> p) (reactions e)\<rparr>)"

text \<open>\<^verbatim>\<open>promise.then(callback)\<close>: queued at once when the promise is fulfilled already.\<close>

definition promise_then :: "nat \<Rightarrow> env \<Rightarrow> env" where
  "promise_then p e =
     (if p \<in> set (resolved e) then e\<lparr>microtasks := microtasks e @ [p]\<rparr>
      else e\<lparr>reactions := reactions e @ [p]\<rparr>)"

definition setTimeout :: "env \<Rightarrow> nat \<times> env" where
  "setTimeout e =
     (timer_count e, e\<lparr>timer_count := Suc (timer_count e), timers := timers e @ [timer_count e]\<rparr>)"

definition clearTimeout :: "nat option \<Rightarrow> env \<Rightarrow> env" where
  "clearTimeout h e =
     (case h of None \<Rightarrow> e | Some k \<Rightarrow> e\<lparr>timers := filter (\<lambda>x. x \<noteq> k) (timers e)\<rparr>)"

subsection \<open>TextScramble\<close>

record task =
  t_from :: jsstring
  t_to :: jsstring
  t_start :: int
  t_end :: int
  t_char :: "jschar option"

record TextScramble =
  el :: jsstring
  frameRequest :: "nat option"
  frame :: int
  queue :: "task list"
  resolve :: "nat option"

definition TextScramble_new :: "jsstring \<Rightarrow> TextScramble" where
  "TextScramble_new element =
     \<lparr>el = element, frameRequest = None, frame = 0, queue = [], resolve = None\<rparr>"

text \<open>The loop of \<^verbatim>\<open>setText\<close>, from position \<open>i\<close> up to \<open>n\<close>: one task a position, two draws each.\<close>

function build_queue :: "jsstring \<Rightarrow> jsstring \<Rightarrow> nat \<Rightarrow> nat \<Rightarrow> rng \<Rightarrow> task list \<times> rng" where
  "build_queue oldText newText i n g =
     (if i < n then
        (let from = char_or_empty oldText i;
             to = char_or_empty newText i;
             (r1, g1) = Math_random g;
             start = \<lfloor>fmul r1 40\<rfloor>;
             (r2, g2) = Math_random g1;
             end = start + \<lfloor>fmul r2 40\<rfloor>;
             (q, g3) = build_queue oldText newText (Suc i) n g2
         in (\<lparr>t_from = from, t_to = to, t_start = start, t_end = end, t_char = None\<rparr> # q, g3))
      else ([], g))"
  by pat_completeness auto
termination
  by (relation "measure (\<lambda>(oldText, newText, i, n, g). n - i)") (auto simp: Math_random_def)

text \<open>The template literal around the scrambled character; \<^verbatim>\<open>undefined\<close> prints as a word.\<close>

definition scramble_span :: "jschar option \<Rightarrow> jsstring" where
  "scramble_span c = js ''<span class=\"scramble-char\">''
              @ (case c of None \<Rightarrow> js ''undefined'' | Some x \<Rightarrow> [x])
              @ js ''</span>''"

text \<open>
  The body of the loop of \<^verbatim>\<open>update\<close> for one task at frame \<open>f\<close>: the piece appended to
  the output, whether the task counts as complete, the task afterwards, the supply
  afterwards. \<^verbatim>\<open>Math.random() < 0.28\<close> is evaluated only when a character is stored;
  the literal \<^verbatim>\<open>0.28\<close> is the double nearest to 28/100.
\<close>

definition update_task :: "int \<Rightarrow> task \<Rightarrow> rng \<Rightarrow> jsstring \<times> bool \<times> task \<times> rng" where
  "update_task f t g =
     (if f \<ge> t_end t then (t_to t, True, t, g)
      else if f \<ge> t_start t then
        (let (redraw, g1) =
               (case t_char t of None \<Rightarrow> (True, g)
                | Some c \<Rightarrow> (let (r, g') = Math_random g in (r < round64 (28 / 100), g')))
         in if redraw then
              (let (r, g2) = Math_random g1;
                   c = char_at chars \<lfloor>fmul r (real (length chars))\<rfloor>
               in (scramble_span c, False, t\<lparr>t_char := c\<rparr>, g2))
            else (scramble_span (t_char t), False, t, g1))
      else (t_from t, False, t, g))"

fun update_loop :: "int \<Rightarrow> task list \<Rightarrow> rng \<Rightarrow> jsstring \<times> nat \<times> task list \<times> rng" where
  "update_loop f [] g = ([], 0, [], g)"
| "update_loop f (t # ts) g =
     (let (piece, c, t', g1) = update_task f t g;
          (output, complete, ts', g2) = update_loop f ts g1
      in (piece @ output, (if c then 1 else 0) + complete, t' # ts', g2))"

text \<open>
  \<^verbatim>\<open>update()\<close>. \<^verbatim>\<open>this.resolve()\<close> on the constructor's \<^verbatim>\<open>null\<close> is a TypeError.
\<close>

definition update :: "env \<times> TextScramble \<Rightarrow> error + env \<times> TextScramble" where
  "update s =
     (let (e, ts) = s;
          (output, complete, q, g) = update_loop (frame ts) (queue ts) (random e);
          e1 = e\<lparr>random := g\<rparr>;
          ts1 = ts\<lparr>queue := q, el := output\<rparr>
      in if complete = length (queue ts1) then
           (case resolve ts1 of None \<Rightarrow> Inl TypeError
            | Some p \<Rightarrow> Inr (call_resolve p e1, ts1))
         else
           (let (h, e2) = requestAnimationFrame e1
            in Inr (e2, ts1\<lparr>frameRequest := Some h, frame := frame ts1 + 1\<rparr>)))"

text \<open>
  \<^verbatim>\<open>setText(newText)\<close>; the result holds the promise returned.
  \<^verbatim>\<open>newText.length\<close> on \<^verbatim>\<open>undefined\<close> is a TypeError, raised before any effect.
\<close>

definition setText ::
  "(jsstring \<Rightarrow> jsstring) \<Rightarrow> jsval \<Rightarrow> env \<times> TextScramble \<Rightarrow> error + nat \<times> env \<times> TextScramble" where
  "setText tc v s =
     (let (e, ts) = s; oldText = tc (el ts)
      in case v of Undefined \<Rightarrow> Inl TypeError
         | Str newText \<Rightarrow>
            (let n = max (length oldText) (length newText);
                 (promise, e1) = new_Promise e;
                 ts1 = ts\<lparr>resolve := Some promise\<rparr>;
                 (q, g) = build_queue oldText newText 0 n (random e1);
                 e2 = e1\<lparr>random := g\<rparr>;
                 ts2 = ts1\<lparr>queue := q\<rparr>;
                 e3 = cancelAnimationFrame (frameRequest ts2) e2;
                 ts3 = ts2\<lparr>frame := 0\<rparr>
             in case update (e3, ts3) of Inl err \<Rightarrow> Inl err
                | Inr s' \<Rightarrow> Inr (promise, s')))"

subsection \<open>What can happen to a scrambler\<close>

text \<open>
  The display refresh runs a scheduled animation-frame callback: the handle leaves the
  schedule and \<^verbatim>\<open>update\<close> runs. With nothing scheduled nothing happens.
\<close>

definition frame_event :: "env \<times> TextScramble \<Rightarrow> error + env \<times> TextScramble" where
  "frame_event s =
     (let (e, ts) = s
      in case raf_pending e of [] \<Rightarrow> Inr s
         | h # hs \<Rightarrow> update (e\<lparr>raf_pending := hs\<rparr>, ts))"

datatype sevent = SetText jsstring | Frame

fun sstep ::
  "(jsstring \<Rightarrow> jsstring) \<Rightarrow> sevent \<Rightarrow> env \<times> TextScramble \<Rightarrow> error + env \<times> TextScramble" where
  "sstep tc (SetText x) s = (case setText tc (Str x) s of Inl err \<Rightarrow> Inl err | Inr (p, s') \<Rightarrow> Inr s')"
| "sstep tc Frame s = frame_event s"

fun srun ::
  "(jsstring \<Rightarrow> jsstring) \<Rightarrow> sevent list \<Rightarrow> env \<times> TextScramble \<Rightarrow> error + env \<times> TextScramble" where
  "srun tc [] s = Inr s"
| "srun tc (ev # evs) s = (case sstep tc ev s of Inl err \<Rightarrow> Inl err | Inr s' \<Rightarrow> srun tc evs s')"

subsection \<open>WordRotator\<close>

record WordRotator =
  words :: "jsstring list"
  interval :: int
  currentIndex :: int
  scrambler :: TextScramble
  timeoutId :: "nat option"

text \<open>
  \<^verbatim>\<open>next()\<close>. The remainder is taken only after \<^verbatim>\<open>setText\<close> has returned, so after
  \<^verbatim>\<open>words[currentIndex]\<close> was a string: both operands are positive there, where
  JavaScript's \<^verbatim>\<open>%\<close> is \<open>mod\<close>.
\<close>

definition WordRotator_next ::
  "(jsstring \<Rightarrow> jsstring) \<Rightarrow> env \<times> WordRotator \<Rightarrow> error + env \<times> WordRotator" where
  "WordRotator_next tc s =
     (let (e, r) = s
      in case setText tc (word_at (words r) (currentIndex r)) (e, scrambler r) of
           Inl err \<Rightarrow> Inl err
         | Inr (p, e1, ts1) \<Rightarrow>
            (let e2 = promise_then p e1;
                 r1 = r\<lparr>scrambler := ts1\<rparr>
             in Inr (e2, r1\<lparr>currentIndex := (currentIndex r1 + 1) mod int (length (words r1))\<rparr>)))"

text \<open>The callback given to \<^verbatim>\<open>then\<close>: it schedules the timeout that calls \<^verbatim>\<open>next\<close>.\<close>

definition then_callback :: "env \<times> WordRotator \<Rightarrow> env \<times> WordRotator" where
  "then_callback s =
     (let (e, r) = s; (k, e1) = setTimeout e
      in (e1, r\<lparr>timeoutId := Some k\<rparr>))"

definition WordRotator_start ::
  "(jsstring \<Rightarrow> jsstring) \<Rightarrow> env \<times> WordRotator \<Rightarrow> error + env \<times> WordRotator" where
  "WordRotator_start tc s = WordRotator_next tc s"

definition WordRotator_stop :: "env \<times> WordRotator \<Rightarrow> env \<times> WordRotator" where
  "WordRotator_stop s = (let (e, r) = s in (clearTimeout (timeoutId r) e, r))"

text \<open>The constructor; \<open>opt\<close> is \<^verbatim>\<open>options.interval\<close> when the options have one.\<close>

definition WordRotator_new ::
  "(jsstring \<Rightarrow> jsstring) \<Rightarrow> jsstring \<Rightarrow> jsstring list \<Rightarrow> int option \<Rightarrow> env
     \<Rightarrow> error + env \<times> WordRotator" where
  "WordRotator_new tc element ws opt e =
     WordRotator_start tc
       (e, \<lparr>words = ws, interval = (case opt of None \<Rightarrow> 3000 | Some i \<Rightarrow> i), currentIndex = 0,
            scrambler = TextScramble_new element, timeoutId = None\<rparr>)"

text \<open>
  What can happen to a rotator: a frame callback, a queued \<^verbatim>\<open>then\<close> callback or a timeout
  runs, or the owner calls \<^verbatim>\<open>stop()\<close>.
\<close>

datatype revent = RFrame | Microtask | Timeout | Stop

fun rstep ::
  "(jsstring \<Rightarrow> jsstring) \<Rightarrow> revent \<Rightarrow> env \<times> WordRotator \<Rightarrow> error + env \<times> WordRotator" where
  "rstep tc RFrame (e, r) =
     (case frame_event (e, scrambler r) of Inl err \<Rightarrow> Inl err
      | Inr (e', ts') \<Rightarrow> Inr (e', r\<lparr>scrambler := ts'\<rparr>))"
| "rstep tc Microtask (e, r) =
     (case microtasks e of [] \<Rightarrow> Inr (e, r)
      | p # ps \<Rightarrow> Inr (then_callback (e\<lparr>microtasks := ps\<rparr>, r)))"
| "rstep tc Timeout (e, r) =
     (case timers e of [] \<Rightarrow> Inr (e, r)
      | k # ks \<Rightarrow> WordRotator_next tc (e\<lparr>timers := ks\<rparr>, r))"
| "rstep tc Stop (e, r) = Inr (WordRotator_stop (e, r))"

fun rrun ::
  "(jsstring \<Rightarrow> jsstring) \<Rightarrow> revent list \<Rightarrow> env \<times> WordRotator \<Rightarrow> error + env \<times> WordRotator" where
  "rrun tc [] s = Inr s"
| "rrun tc (ev # evs) s = (case rstep tc ev s of Inl err \<Rightarrow> Inl err | Inr s' \<Rightarrow> rrun tc evs s')"

subsection \<open>The word-rotation branch of initKineticText\<close>

text \<open>\<^verbatim>\<open>s.split(',')\<close>: the pieces between the commas, at least one.\<close>

fun split_comma :: "jsstring \<Rightarrow> jsstring list" where
  "split_comma [] = [[]]"
| "split_comma (c # cs) =
     (if c = 44 then [] # split_comma cs
      else (case split_comma cs of [] \<Rightarrow> [[c]] | w # ws \<Rightarrow> (c # w) # ws))"

text \<open>The white space and line terminators that \<^verbatim>\<open>trim()\<close> removes at both ends.\<close>

definition is_space :: "jschar \<Rightarrow> bool" where
  "is_space c \<longleftrightarrow>
     c \<in> {9, 10, 11, 12, 13, 32, 160, 5760, 8232, 8233, 8239, 8287, 12288, 65279}
     \<or> (8192 \<le> c \<and> c \<le> 8202)"

definition trim :: "jsstring \<Rightarrow> jsstring" where
  "trim s = rev (dropWhile is_space (rev (dropWhile is_space s)))"

text \<open>
  \<^verbatim>\<open>el.dataset.words?.split(',').map((w) => w.trim()) || []\<close>; \<open>None\<close> is an element
  without the attribute.
\<close>

definition dataset_words :: "jsstring option \<Rightarrow> jsstring list" where
  "dataset_words d = (case d of None \<Rightarrow> [] | Some s \<Rightarrow> map trim (split_comma s))"

text \<open>
  One element with \<^verbatim>\<open>data-kinetic="rotate"\<close>. \<open>parsed\<close> is what \<^verbatim>\<open>parseInt\<close> made of
  \<^verbatim>\<open>data-interval\<close> (\<open>None\<close> for NaN); NaN and 0 give way to 3000.
\<close>

definition init_rotate ::
  "(jsstring \<Rightarrow> jsstring) \<Rightarrow> jsstring \<Rightarrow> jsstring option \<Rightarrow> int option \<Rightarrow> env
     \<Rightarrow> error + env \<times> WordRotator option" where
  "init_rotate tc element d parsed e =
     (let ws = dataset_words d
      in if length ws > 0 then
           (case WordRotator_new tc element ws
                   (Some (case parsed of None \<Rightarrow> 3000 | Some i \<Rightarrow> if i = 0 then 3000 else i)) e of
              Inl err \<Rightarrow> Inl err
            | Inr (e', r) \<Rightarrow> Inr (e', Some r))
         else Inr (e, None))"

subsection \<open>Predicates and auxiliary functions for the proofs\<close>

text \<open>What \<^verbatim>\<open>Math.random()\<close> promises: every result is a double in \<open>[0, 1)\<close>.\<close>

definition rng_ok :: "rng \<Rightarrow> bool" where
  "rng_ok g \<longleftrightarrow> (\<forall>n. 0 \<le> g n \<and> g n < 1 \<and> round64 (g n) = g n)"

text \<open>The ranges of \<open>start\<close> and \<open>end\<close>.\<close>

definition in_range :: "task \<Rightarrow> bool" where
  "in_range t \<longleftrightarrow> 0 \<le> t_start t \<and> t_start t < 40 \<and> t_start t \<le> t_end t \<and> t_end t < t_start t + 40"

text \<open>A task in range whose stored character, if any, is one of \<open>chars\<close>.\<close>

definition task_ok :: "task \<Rightarrow> bool" where
  "task_ok t \<longleftrightarrow> in_range t \<and> (case t_char t of None \<Rightarrow> True | Some c \<Rightarrow> c \<in> set chars)"

text \<open>Every task has reached its end at the current frame.\<close>

definition all_frozen :: "TextScramble \<Rightarrow> bool" where
  "all_frozen ts \<longleftrightarrow> (\<forall>t\<in>set (queue ts). frame ts \<ge> t_end t)"

text \<open>
  The state in which \<^verbatim>\<open>setText\<close> calls \<^verbatim>\<open>update\<close>: the promise created, the queue
  rebuilt, the scheduled frame cancelled, the frame counter at 0.
\<close>

definition before_update ::
  "(jsstring \<Rightarrow> jsstring) \<Rightarrow> jsstring \<Rightarrow> env \<times> TextScramble \<Rightarrow> env \<times> TextScramble" where
  "before_update tc x s =
     (let (e, ts) = s;
          oldText = tc (el ts);
          b = build_queue oldText x 0 (max (length oldText) (length x)) (random e)
      in (cancelAnimationFrame (frameRequest ts) (e\<lparr>promises := Suc (promises e), random := snd b\<rparr>),
          ts\<lparr>resolve := Some (promises e), queue := fst b, frame := 0\<rparr>))"

text \<open>
  The states in which \<^verbatim>\<open>update\<close> runs: nothing else scheduled, and the current promise
  not resolved yet.
\<close>

definition ready :: "env \<times> TextScramble \<Rightarrow> bool" where
  "ready s \<longleftrightarrow>
     (let (e, ts) = s
      in raf_pending e = [] \<and> (\<forall>q\<in>set (resolved e). q < promises e) \<and> distinct (resolved e)
         \<and> (\<forall>h. frameRequest ts = Some h \<longrightarrow> h < raf_count e)
         \<and> (\<exists>p. resolve ts = Some p \<and> p < promises e \<and> p \<notin> set (resolved e)))"

text \<open>
  The bookkeeping invariant of a scrambler: no promise is resolved twice; at most one frame
  callback is scheduled, and it is the one \<open>frameRequest\<close> names; handles are fresh; a
  callback is scheduled exactly while the current promise is unresolved; a finished session
  has all its tasks frozen and its element shows their \<open>to\<close> characters.
\<close>

definition sinv :: "env \<times> TextScramble \<Rightarrow> bool" where
  "sinv s \<longleftrightarrow>
     (let (e, ts) = s
      in (\<forall>q\<in>set (resolved e). q < promises e) \<and> distinct (resolved e)
         \<and> (\<forall>p. resolve ts = Some p \<longrightarrow> p < promises e)
         \<and> (\<forall>h. frameRequest ts = Some h \<longrightarrow> h < raf_count e)
         \<and> (raf_pending e = [] \<or> (\<exists>h. raf_pending e = [h] \<and> frameRequest ts = Some h))
         \<and> (raf_pending e \<noteq> [] \<longrightarrow> (\<exists>p. resolve ts = Some p \<and> p \<notin> set (resolved e)))
         \<and> (raf_pending e = [] \<longrightarrow>
              (\<forall>p. resolve ts = Some p \<longrightarrow> p \<in> set (resolved e) \<and> all_frozen ts
                    \<and> el ts = concat (map t_to (queue ts)))))"

text \<open>The random supply is sound and every task of the queue is well formed.\<close>

definition qinv :: "env \<times> TextScramble \<Rightarrow> bool" where
  "qinv s \<longleftrightarrow> (let (e, ts) = s in rng_ok (random e) \<and> (\<forall>t\<in>set (queue ts). task_ok t))"

text \<open>
  The pieces that the loop of \<^verbatim>\<open>update\<close> appends, position by position; the output of
  \<open>update_loop\<close> is their concatenation (lemma \<open>update_loop_static\<close>).
\<close>

fun update_pieces :: "int \<Rightarrow> task list \<Rightarrow> rng \<Rightarrow> jsstring list" where
  "update_pieces f [] g = []"
| "update_pieces f (t # ts) g =
     (let (piece, c, t', g1) = update_task f t g in piece # update_pieces f ts g1)"

declare build_queue.simps [simp del]

text \<open>The task that one round of the loop of \<^verbatim>\<open>setText\<close> pushes.\<close>

definition mk_task :: "jsstring \<Rightarrow> jsstring \<Rightarrow> nat \<Rightarrow> rng \<Rightarrow> task" where
  "mk_task old new i g =
     \<lparr>t_from = char_or_empty old i, t_to = char_or_empty new i, t_start = \<lfloor>fmul (g 0) 40\<rfloor>,
      t_end = \<lfloor>fmul (g 0) 40\<rfloor> + \<lfloor>fmul (g 1) 40\<rfloor>, t_char = None\<rparr>"

text \<open>
  A promise that has been created, is not the current one and has not been resolved.
\<close>

definition superseded :: "nat \<Rightarrow> env \<times> TextScramble \<Rightarrow> bool" where
  "superseded q s \<longleftrightarrow> (let (e, ts) = s in q < promises e \<and> resolve ts \<noteq> Some q \<and> q \<notin> set (resolved e))"

text \<open>
  The invariant of a rotator: a word list that is not empty, an index within it, and a
  scrambler in order.
\<close>

definition rinv :: "env \<times> WordRotator \<Rightarrow> bool" where
  "rinv s \<longleftrightarrow>
     (let (e, r) = s
      in words r \<noteq> [] \<and> 0 \<le> currentIndex r \<and> currentIndex r < int (length (words r))
         \<and> sinv (e, scrambler r))"

text \<open>
  What \<^verbatim>\<open>textContent\<close> reads from a markup is the host's HTML parser at work, which is
  no part of the module. For examples on concrete markup, \<open>text_of_markup\<close> is the part
  of it that the markup of a session needs: a \<open><\<close> followed by a letter or a slash opens
  a tag, which runs to the next \<open>>\<close> and contributes no text; every other code unit is
  text. (Character references, comments and quoted attribute values are left out.)
\<close>

definition tag_start :: "jsstring \<Rightarrow> bool" where
  "tag_start cs =
     (case cs of [] \<Rightarrow> False
      | d # _ \<Rightarrow> d = 47 \<or> (65 \<le> d \<and> d \<le> 90) \<or> (97 \<le> d \<and> d \<le> 122))"

fun scan_markup :: "bool \<Rightarrow> jsstring \<Rightarrow> jsstring" where
  "scan_markup in_tag [] = []"
| "scan_markup True (c # cs) = (if c = 62 then scan_markup False cs else scan_markup True cs)"
| "scan_markup False (c # cs) =
     (if c = 60 \<and> tag_start cs then scan_markup True cs else c # scan_markup False cs)"

definition text_of_markup :: "jsstring \<Rightarrow> jsstring" where
  "text_of_markup s = scan_markup False s"

section \<open>Lemmas\<close>

lemma ulp64_pos: "0 < ulp64 x"
  unfolding ulp64_def by (rule zero_less_power_int) simp

lemma bitlen_floor_le:
  fixes x :: real
  assumes "x < 2 powi a" and "0 \<le> a + b"
  shows "bitlen \<lfloor>x * 2 powi b\<rfloor> \<le> a + b"
proof -
  have "x * 2 powi b < 2 powi a * 2 powi b" using assms(1) by (simp only: mult_less_cancel_right_pos zero_less_power_int zero_less_numeral)
  also have "\<dots> = 2 powi (a + b)" by (rule power_int_add [symmetric]) simp
  also have "\<dots> = of_int (2 ^ nat (a + b))" using assms(2) by (simp add: power_int_def)
  finally have "\<lfloor>x * 2 powi b\<rfloor> < 2 ^ nat (a + b)" by (simp only: floor_less_iff)
  with assms(2) show ?thesis by (simp add: bitlen_le_iff_power)
qed

lemma bitlen_floor_ge:
  fixes x :: real
  assumes "2 powi a \<le> x" and "0 \<le> a + b"
  shows "a + b + 1 \<le> bitlen \<lfloor>x * 2 powi b\<rfloor>"
proof -
  have "(of_int (2 ^ nat (a + b)) :: real) = 2 powi (a + b)"
    using assms(2) by (simp add: power_int_def)
  also have "\<dots> = 2 powi a * 2 powi b" by (rule power_int_add) simp
  also have "\<dots> \<le> x * 2 powi b" using assms(1) by (simp only: mult_le_cancel_right_pos zero_less_power_int zero_less_numeral)
  finally have "2 ^ nat (a + b) \<le> \<lfloor>x * 2 powi b\<rfloor>" by (simp only: le_floor_iff)
  moreover have "nat (a + b + 1) - 1 = nat (a + b)" using assms(2) by simp
  ultimately show ?thesis by (simp add: bitlen_ge_iff_power)
qed

lemma bitlen_binade:
  fixes x :: real
  assumes "2 powi e \<le> x" and "x < 2 powi (e + 1)" and "- 1022 \<le> e"
  shows "bitlen \<lfloor>x * 2 powi 1074\<rfloor> = e + 1075"
proof -
  have "bitlen \<lfloor>x * 2 powi 1074\<rfloor> \<le> e + 1 + 1074"
    using assms(2,3) by (intro bitlen_floor_le) simp_all
  moreover have "e + 1074 + 1 \<le> bitlen \<lfloor>x * 2 powi 1074\<rfloor>"
    using assms(1,3) by (intro bitlen_floor_ge) simp_all
  ultimately show ?thesis by linarith
qed

lemma ulp64_binade:
  assumes "2 powi e \<le> x" and "x < 2 powi (e + 1)" and "- 1022 \<le> e"
  shows "ulp64 x = 2 powi (e - 52)"
proof -
  have "max (bitlen \<lfloor>x * 2 powi 1074\<rfloor> - 1075) (- 1022) - 52 = e - 52"
    using bitlen_binade [OF assms] assms(3) by linarith
  then show ?thesis unfolding ulp64_def by (rule arg_cong)
qed

lemma ulp64_le:
  assumes "x < 2 powi (e + 1)" and "- 1022 \<le> e"
  shows "ulp64 x \<le> 2 powi (e - 52)"
proof -
  have "bitlen \<lfloor>x * 2 powi 1074\<rfloor> \<le> e + 1 + 1074"
    using assms by (intro bitlen_floor_le) simp_all
  then have "max (bitlen \<lfloor>x * 2 powi 1074\<rfloor> - 1075) (- 1022) - 52 \<le> e - 52"
    using assms(2) by linarith
  then show ?thesis unfolding ulp64_def by (intro power_int_increasing) simp_all
qed

lemma rhe_le: "of_int (round_half_even q) \<le> q + 1 / 2"
  unfolding round_half_even_def Let_def by (auto; linarith)

lemma rhe_ge: "q - 1 / 2 \<le> of_int (round_half_even q)"
  unfolding round_half_even_def Let_def by (auto; linarith)

lemma rhe_int: "round_half_even (of_int n) = n"
  by (simp add: round_half_even_def)

lemma rhe_nonneg: "0 \<le> q \<Longrightarrow> 0 \<le> round_half_even q"
  unfolding round_half_even_def Let_def by auto

lemma round64_le: "round64 x \<le> x + ulp64 x / 2"
proof -
  have "of_int (round_half_even (x / ulp64 x)) * ulp64 x \<le> (x / ulp64 x + 1 / 2) * ulp64 x"
    using rhe_le [of "x / ulp64 x"] ulp64_pos [of x] by (simp only: mult_le_cancel_right_pos)
  also have "\<dots> = x + ulp64 x / 2" using ulp64_pos [of x] by (simp add: field_simps)
  finally show ?thesis by (simp add: round64_def)
qed

lemma round64_ge: "x - ulp64 x / 2 \<le> round64 x"
proof -
  have "(x / ulp64 x - 1 / 2) * ulp64 x \<le> of_int (round_half_even (x / ulp64 x)) * ulp64 x"
    using rhe_ge [of "x / ulp64 x"] ulp64_pos [of x] by (simp only: mult_le_cancel_right_pos)
  moreover have "(x / ulp64 x - 1 / 2) * ulp64 x = x - ulp64 x / 2"
    using ulp64_pos [of x] by (simp add: field_simps)
  ultimately show ?thesis by (simp add: round64_def)
qed

lemma round64_nonneg: "0 \<le> x \<Longrightarrow> 0 \<le> round64 x"
  using rhe_nonneg [of "x / ulp64 x"] ulp64_pos [of x] by (simp add: round64_def)

lemma round64_exact:
  assumes "2 powi e \<le> x" and "x < 2 powi (e + 1)" and "- 1022 \<le> e"
    and "x = of_int k * 2 powi (e - 52)"
  shows "round64 x = x"
proof -
  have u: "ulp64 x = 2 powi (e - 52)" using assms(1-3) by (rule ulp64_binade)
  have "x / ulp64 x = of_int k" using assms(4) u by simp
  then show ?thesis using u assms(4) by (simp add: round64_def rhe_int)
qed

lemma round64_zero: "round64 0 = 0"
  by (simp add: round64_def round_half_even_def)

lemma round64_below:
  assumes "2 powi e \<le> x" and "x < 2 powi (e + 1)" and "- 1022 \<le> e"
    and "x < of_int N * 2 powi (e - 52) - 2 powi (e - 52) / 2"
  shows "round64 x < of_int N * 2 powi (e - 52)"
proof -
  let ?u = "2 powi (e - 52) :: real"
  have u: "ulp64 x = ?u" using assms(1-3) by (rule ulp64_binade)
  have pos: "0 < ?u" by simp
  have "x / ?u < of_int N - 1 / 2" using assms(4) pos by (simp add: field_simps)
  with rhe_le [of "x / ?u"] have "of_int (round_half_even (x / ?u)) < (of_int N :: real)" by linarith
  then have "of_int (round_half_even (x / ?u)) * ?u < of_int N * ?u"
    using pos by (simp only: mult_less_cancel_right_pos)
  then show ?thesis using u by (simp add: round64_def)
qed

lemma double_below_1:
  assumes d: "round64 r = r" and "0 \<le> r" and "r < 1"
  shows "r \<le> 1 - 2 powi (- 53)"
proof (cases "r < 1 / 2")
  case True
  have "(2::real) powi (- 53) \<le> 2 powi (- 1)" by (intro power_int_increasing) simp_all
  then have "(2::real) powi (- 53) \<le> 1 / 2" by (simp add: power_int_minus)
  with True show ?thesis by linarith
next
  case False
  then have lo: "2 powi (- 1) \<le> r" by (simp add: power_int_minus)
  have hi: "r < 2 powi (- 1 + 1)" using assms(3) by simp
  let ?u = "2 powi (- 53) :: real"
  have "ulp64 r = 2 powi (- 1 - 52)" using lo hi by (rule ulp64_binade) simp
  then have u: "ulp64 r = ?u" by simp
  define k where "k = round_half_even (r / ulp64 r)"
  from d have "r = of_int k * ulp64 r" unfolding round64_def k_def by (rule sym)
  then have r: "r = of_int k * ?u" by (simp only: u)
  have one: "(1::real) = of_int (2 ^ 53) * ?u" by (simp add: power_int_minus)
  have pos: "0 < ?u" by simp
  have "of_int k * ?u < of_int (2 ^ 53) * ?u" using r one assms(3) by (simp only:)
  then have "(of_int k :: real) < of_int (2 ^ 53)" using pos by (simp only: mult_less_cancel_right_pos)
  then have "k < 2 ^ 53" by (simp only: of_int_less_iff)
  then have "k \<le> 2 ^ 53 - 1" by simp
  then have "(of_int k :: real) \<le> of_int (2 ^ 53 - 1)" by (simp only: of_int_le_iff)
  then have "of_int k * ?u \<le> of_int (2 ^ 53 - 1) * ?u" using pos by (simp only: mult_le_cancel_right_pos)
  also have "\<dots> = 1 - ?u" by (simp add: power_int_minus algebra_simps)
  finally show ?thesis using r by (simp only:)
qed

lemma fmul_bound:
  fixes C :: int
  assumes r: "0 \<le> r" "r \<le> 1 - 2 powi (- 53)"
    and e: "0 \<le> e" "e \<le> 52"
    and c: "(2::real) powi e + 1 \<le> of_int C" "of_int C \<le> (2::real) powi (e + 1)"
  shows "0 \<le> \<lfloor>fmul r (of_int C)\<rfloor> \<and> \<lfloor>fmul r (of_int C)\<rfloor> < C"
proof -
  let ?c = "of_int C :: real"
  let ?x = "r * ?c"
  have "0 < (2::real) powi e" by simp
  with c(1) have cpos: "0 < ?c" by linarith
  have x0: "0 \<le> ?x" using r(1) cpos by simp
  have xle: "?x \<le> ?c - ?c * 2 powi (- 53)"
  proof -
    have "r * ?c \<le> (1 - 2 powi (- 53)) * ?c" using r(2) cpos by (simp only: mult_le_cancel_right_pos)
    then show ?thesis by (simp add: algebra_simps)
  qed
  have lt: "round64 ?x < ?c"
  proof (cases "?x < 2 powi e")
    case True
    then have "?x < 2 powi (e - 1 + 1)" by simp
    then have "ulp64 ?x \<le> 2 powi (e - 1 - 52)" using e by (intro ulp64_le) simp_all
    also have "\<dots> \<le> 2 powi 0" using e by (intro power_int_increasing) simp_all
    finally have "ulp64 ?x \<le> 1" by simp
    with round64_le [of ?x] True c(1) show ?thesis by linarith
  next
    case False
    then have lo: "2 powi e \<le> ?x" by simp
    have "?c * 2 powi (- 53) > 0" using cpos by simp
    with xle c(2) have hi: "?x < 2 powi (e + 1)" by linarith
    let ?N = "C * 2 ^ nat (52 - e)"
    have "(2::real) ^ nat (52 - e) = 2 powi (52 - e)" using e by (simp add: power_int_def)
    then have "of_int ?N * 2 powi (e - 52) = ?c * (2 powi (52 - e) * 2 powi (e - 52))"
      by simp
    also have "2 powi (52 - e) * 2 powi (e - 52) = (2::real) powi (52 - e + (e - 52))"
      by (rule power_int_add [symmetric]) simp
    finally have N: "of_int ?N * 2 powi (e - 52) = ?c" by simp
    have "(2::real) powi (e - 52) / 2 = 2 powi (e - 52) * 2 powi (- 1)" by (simp add: power_int_minus)
    also have "\<dots> = 2 powi (e - 52 + - 1)" by (rule power_int_add [symmetric]) simp
    finally have half: "(2::real) powi (e - 52) / 2 = 2 powi (e - 53)" by simp
    have "(2::real) powi (e - 53) = 2 powi e * 2 powi (- 53)"
      using power_int_add [of "2::real" e "- 53"] by simp
    also have "\<dots> < ?c * 2 powi (- 53)"
      using c(1) by (simp only: mult_less_cancel_right_pos zero_less_power_int zero_less_numeral)
    finally have "?x < ?c - 2 powi (e - 53)" using xle by linarith
    then have "?x < of_int ?N * 2 powi (e - 52) - 2 powi (e - 52) / 2" by (simp only: N half)
    have "- 1022 \<le> e" using e by simp
    from round64_below [OF lo hi this \<open>?x < of_int ?N * 2 powi (e - 52) - 2 powi (e - 52) / 2\<close>]
    show ?thesis by (simp only: N)
  qed
  have "0 \<le> round64 ?x" using x0 by (rule round64_nonneg)
  then have a: "0 \<le> \<lfloor>round64 ?x\<rfloor>" by simp
  have b: "\<lfloor>round64 ?x\<rfloor> < C" using lt by (simp add: floor_less_iff)
  from a b show ?thesis by (simp add: fmul_def)
qed

lemma round64_sixteenth: "round64 (1 / 16) = 1 / 16"
  by (rule round64_exact [where e = "- 4" and k = "2 ^ 52"]) (simp_all add: power_int_minus)

lemma round64_five_halves: "round64 (5 / 2) = 5 / 2"
  by (rule round64_exact [where e = 1 and k = "5 * 2 ^ 50"]) (simp_all add: power_int_minus)

lemma round64_nine_eighths: "round64 (9 / 8) = 9 / 8"
  by (rule round64_exact [where e = 0 and k = "9 * 2 ^ 49"]) (simp_all add: power_int_minus)

lemma sixteenth_less_028: "1 / 16 < round64 (7 / 25)"
proof -
  have "ulp64 (7 / 25) \<le> 2 powi (- 2 - 52)" by (intro ulp64_le) (simp_all add: power_int_minus)
  also have "\<dots> \<le> 2 powi (- 4)" by (intro power_int_increasing) simp_all
  finally have "ulp64 (7 / 25) \<le> 1 / 16" by (simp add: power_int_minus)
  with round64_ge [of "7 / 25"] show ?thesis by linarith
qed

lemma sixteenth_less_028_scaled: "1 < round64 (7 / 25) * 16"
  using sixteenth_less_028 by simp

text \<open>
  Two products where the rounding decides the floor. The double nearest to 0.7 is
  \<open>6305039478318694 / 2^53\<close>; its exact product with 40 lies below 28, halfway between two
  doubles, and rounds to 28. The double \<open>8006399337547548 / 2^53\<close> (0.8888888888888888)
  times 18 rounds to 16 in the same way.
\<close>

lemma fmul_rounds_up_to_28: "\<lfloor>fmul (6305039478318694 / 2 ^ 53) 40\<rfloor> = 28"
proof -
  let ?x = "6305039478318694 / 2 ^ 53 * 40 :: real"
  have "ulp64 ?x = 2 powi (4 - 52)"
    by (rule ulp64_binade) (simp_all add: power_int_minus)
  then have u: "ulp64 ?x = 1 / 2 ^ 48" by (simp add: power_int_minus field_simps)
  have "?x / (1 / 2 ^ 48) = 15762598695796735 / 2" by simp
  then have "round_half_even (?x / (1 / 2 ^ 48)) = 7881299347898368"
    by (simp add: round_half_even_def)
  then have "round64 ?x = 28" unfolding round64_def u by simp
  then show ?thesis by (simp add: fmul_def)
qed

lemma fmul_rounds_up_to_16: "\<lfloor>fmul (8006399337547548 / 2 ^ 53) 18\<rfloor> = 16"
proof -
  let ?x = "8006399337547548 / 2 ^ 53 * 18 :: real"
  have "ulp64 ?x = 2 powi (3 - 52)"
    by (rule ulp64_binade) (simp_all add: power_int_minus)
  then have u: "ulp64 ?x = 1 / 2 ^ 49" by (simp add: power_int_minus field_simps)
  have "?x / (1 / 2 ^ 49) = 18014398509481983 / 2" by simp
  then have "round_half_even (?x / (1 / 2 ^ 49)) = 9007199254740992"
    by (simp add: round_half_even_def)
  then have "round64 ?x = 16" unfolding round64_def u by simp
  then show ?thesis by (simp add: fmul_def)
qed

lemma exact_floor_differs: "\<lfloor>6305039478318694 / 2 ^ 53 * 40 :: real\<rfloor> = 27"
  by simp

lemma rng_ok_draw: "rng_ok g \<Longrightarrow> 0 \<le> g n \<and> g n \<le> 1 - 2 powi (- 53)"
  using double_below_1 [of "g n"] by (simp add: rng_ok_def)

lemma floor_40:
  assumes "0 \<le> r" and "r \<le> 1 - 2 powi (- 53)"
  shows "0 \<le> \<lfloor>fmul r 40\<rfloor> \<and> \<lfloor>fmul r 40\<rfloor> < 40"
  using fmul_bound [OF assms, of 5 40] by simp

lemma floor_18:
  assumes "0 \<le> r" and "r \<le> 1 - 2 powi (- 53)"
  shows "0 \<le> \<lfloor>fmul r 18\<rfloor> \<and> \<lfloor>fmul r 18\<rfloor> < 18"
  using fmul_bound [OF assms, of 4 18] by simp

lemma build_queue_step:
  "i < n \<Longrightarrow> build_queue old new i n g =
     (mk_task old new i g # fst (build_queue old new (Suc i) n (\<lambda>k. g (Suc (Suc k)))),
      snd (build_queue old new (Suc i) n (\<lambda>k. g (Suc (Suc k)))))"
  by (subst build_queue.simps) (simp add: Let_def Math_random_def mk_task_def split: prod.splits)

lemma build_queue_stop: "\<not> i < n \<Longrightarrow> build_queue old new i n g = ([], g)"
  by (subst build_queue.simps) simp

lemma rng_ok_shift2: "rng_ok g \<Longrightarrow> rng_ok (\<lambda>k. g (Suc (Suc k)))"
  by (simp add: rng_ok_def)

lemma build_queue_length: "length (fst (build_queue old new i n g)) = n - i"
proof (induction "n - i" arbitrary: i g)
  case 0
  then show ?case by (simp add: build_queue_stop)
next
  case (Suc d)
  then have "i < n" and "d = n - Suc i" by simp_all
  with Suc.hyps(1) [of "Suc i"] show ?case
    by (simp add: build_queue_step)
qed

lemma build_queue_nth:
  "j < n - i \<Longrightarrow>
     t_from (fst (build_queue old new i n g) ! j) = char_or_empty old (i + j)
     \<and> t_to (fst (build_queue old new i n g) ! j) = char_or_empty new (i + j)
     \<and> t_char (fst (build_queue old new i n g) ! j) = None"
proof (induction "n - i" arbitrary: i g j)
  case 0
  then show ?case by simp
next
  case (Suc d)
  then have lt: "i < n" and d: "d = n - Suc i" by simp_all
  show ?case
  proof (cases j)
    case 0
    then show ?thesis using lt by (simp add: build_queue_step mk_task_def)
  next
    case (Suc j')
    then have "j' < n - Suc i" using Suc.prems by simp
    from Suc.hyps(1) [OF d this] show ?thesis using lt Suc
      by (simp add: build_queue_step)
  qed
qed

lemma mk_task_range:
  assumes "rng_ok g"
  shows "0 \<le> t_start (mk_task old new i g) \<and> t_start (mk_task old new i g) < 40
         \<and> t_start (mk_task old new i g) \<le> t_end (mk_task old new i g)
         \<and> t_end (mk_task old new i g) < t_start (mk_task old new i g) + 40"
proof -
  have a: "0 \<le> \<lfloor>fmul (g 0) 40\<rfloor> \<and> \<lfloor>fmul (g 0) 40\<rfloor> < 40"
    using rng_ok_draw [OF assms, of 0] by (intro floor_40) simp_all
  have b: "0 \<le> \<lfloor>fmul (g 1) 40\<rfloor> \<and> \<lfloor>fmul (g 1) 40\<rfloor> < 40"
    using rng_ok_draw [OF assms, of 1] by (intro floor_40) simp_all
  from a b show ?thesis by (simp add: mk_task_def)
qed

lemma build_queue_range:
  "rng_ok g \<Longrightarrow> (\<forall>t \<in> set (fst (build_queue old new i n g)). in_range t \<and> t_char t = None)
       \<and> rng_ok (snd (build_queue old new i n g))"
proof (induction "n - i" arbitrary: i g)
  case 0
  then show ?case by (simp add: build_queue_stop)
next
  case (Suc d)
  then have lt: "i < n" and d: "d = n - Suc i" by simp_all
  from Suc.hyps(1) [OF d rng_ok_shift2 [OF Suc.prems]] mk_task_range [OF Suc.prems, of old new i]
  show ?case using lt by (simp add: build_queue_step in_range_def mk_task_def)
qed

lemma length_chars: "length chars = 18"
  by (simp add: chars_def)

lemma update_task_static:
  assumes "update_task f t g = (piece, c, t', g')"
  shows "t_from t' = t_from t \<and> t_to t' = t_to t \<and> t_start t' = t_start t \<and> t_end t' = t_end t
         \<and> (c \<longleftrightarrow> f \<ge> t_end t) \<and> (f \<ge> t_end t \<longrightarrow> piece = t_to t) \<and> (rng_ok g \<longrightarrow> rng_ok g')"
  using assms
  by (auto simp: update_task_def Let_def Math_random_def rng_ok_def
           split: if_splits option.splits prod.splits)

lemma char_at_glyph:
  assumes "0 \<le> r" and "r \<le> 1 - 2 powi (- 53)"
  shows "\<exists>k<length chars. char_at chars \<lfloor>fmul r (real (length chars))\<rfloor> = Some (chars ! k)"
proof -
  define z where "z = \<lfloor>fmul r (real (length chars))\<rfloor>"
  have z: "0 \<le> z \<and> z < int (length chars)"
    unfolding z_def using floor_18 [OF assms] by (simp add: length_chars)
  then have "nat z < length chars" by linarith
  moreover have "char_at chars z = Some (chars ! nat z)" using z by (simp add: char_at_def)
  ultimately show ?thesis unfolding z_def by blast
qed

lemma update_task_ok:
  assumes g: "rng_ok g" and t: "task_ok t" and u: "update_task f t g = (piece, c, t', g')"
  shows "task_ok t'
         \<and> (t_start t \<le> f \<and> f < t_end t \<longrightarrow> (\<exists>k<length chars. piece = scramble_span (Some (chars ! k))))
         \<and> (f < t_start t \<longrightarrow> piece = t_from t)"
proof -
  have h0: "\<exists>k<length chars. char_at chars \<lfloor>fmul (g 0) (real (length chars))\<rfloor> = Some (chars ! k)"
    using rng_ok_draw [OF g, of 0] by (intro char_at_glyph) simp_all
  have h1: "\<exists>k<length chars. char_at chars \<lfloor>fmul (g 1) (real (length chars))\<rfloor> = Some (chars ! k)"
    using rng_ok_draw [OF g, of 1] by (intro char_at_glyph) simp_all
  show ?thesis
  proof (cases "f \<ge> t_end t")
    case True
    with t u show ?thesis by (auto simp: update_task_def task_ok_def in_range_def)
  next
    case False
    note nend = this
    show ?thesis
    proof (cases "f \<ge> t_start t")
      case False
      with nend t u show ?thesis by (auto simp: update_task_def task_ok_def in_range_def)
    next
      case True
      show ?thesis
      proof (cases "t_char t")
        case None
        with True nend t u h0 show ?thesis
          by (auto simp: update_task_def task_ok_def in_range_def Let_def Math_random_def)
      next
        case (Some x)
        then have x: "x \<in> set chars" using t by (simp add: task_ok_def in_range_def)
        then obtain j where j: "j < length chars" "x = chars ! j"
          by (auto simp: in_set_conv_nth)
        show ?thesis
        proof (cases "g 0 < round64 (28 / 100)")
          case True
          with \<open>f \<ge> t_start t\<close> nend t u h1 Some show ?thesis
            by (auto simp: update_task_def task_ok_def in_range_def Let_def Math_random_def)
        next
          case False
          with \<open>f \<ge> t_start t\<close> nend t u Some j show ?thesis
            by (auto simp: update_task_def task_ok_def in_range_def Let_def Math_random_def)
        qed
      qed
    qed
  qed
qed

lemma update_loop_static:
  "update_loop f q g = (out, n, q', g') \<Longrightarrow>
     length q' = length q \<and> map t_from q' = map t_from q \<and> map t_to q' = map t_to q
     \<and> map t_start q' = map t_start q \<and> map t_end q' = map t_end q
     \<and> n = length (filter (\<lambda>t. f \<ge> t_end t) q)
     \<and> out = concat (update_pieces f q g)
     \<and> (rng_ok g \<longrightarrow> rng_ok g')"
proof (induction q arbitrary: g out n q' g')
  case Nil
  then show ?case by simp
next
  case (Cons t q)
  obtain piece c t' g1 where u: "update_task f t g = (piece, c, t', g1)"
    by (cases "update_task f t g") auto
  obtain out1 n1 q1 g2 where l: "update_loop f q g1 = (out1, n1, q1, g2)"
    by (cases "update_loop f q g1") auto
  from Cons.prems u l have res: "out = piece @ out1" "n = (if c then 1 else 0) + n1"
    "q' = t' # q1" "g' = g2" by simp_all
  from update_task_static [OF u] Cons.IH [OF l] res u l show ?case
    by simp
qed

lemma update_loop_ok:
  "rng_ok g \<Longrightarrow> \<forall>t\<in>set q. task_ok t \<Longrightarrow> update_loop f q g = (out, n, q', g') \<Longrightarrow>
     \<forall>t\<in>set q'. task_ok t"
proof (induction q arbitrary: g out n q' g')
  case Nil
  then show ?case by simp
next
  case (Cons t q)
  obtain piece c t' g1 where u: "update_task f t g = (piece, c, t', g1)"
    by (cases "update_task f t g") auto
  obtain out1 n1 q1 g2 where l: "update_loop f q g1 = (out1, n1, q1, g2)"
    by (cases "update_loop f q g1") auto
  from Cons.prems u l have res: "q' = t' # q1" by simp
  have g1: "rng_ok g1" using update_task_static [OF u] Cons.prems(1) by simp
  have "task_ok t'" using update_task_ok [OF Cons.prems(1) _ u] Cons.prems(2) by simp
  moreover have "\<forall>t\<in>set q1. task_ok t" using Cons.IH [OF g1 _ l] Cons.prems(2) by simp
  ultimately show ?case using res by simp
qed

lemma update_pieces_length: "length (update_pieces f q g) = length q"
  by (induction q arbitrary: g) (auto split: prod.splits)

lemma update_pieces_frozen:
  "i < length q \<Longrightarrow> f \<ge> t_end (q ! i) \<Longrightarrow> update_pieces f q g ! i = t_to (q ! i)"
proof (induction q arbitrary: g i)
  case Nil
  then show ?case by simp
next
  case (Cons t q)
  obtain piece c t' g1 where u: "update_task f t g = (piece, c, t', g1)"
    by (cases "update_task f t g") auto
  show ?case
  proof (cases i)
    case 0
    with Cons.prems update_task_static [OF u] u show ?thesis by simp
  next
    case (Suc j)
    with Cons.prems Cons.IH [of j g1] u show ?thesis by simp
  qed
qed

lemma update_pieces_phase:
  "rng_ok g \<Longrightarrow> \<forall>t\<in>set q. task_ok t \<Longrightarrow> i < length q \<Longrightarrow>
     (t_start (q ! i) \<le> f \<and> f < t_end (q ! i) \<longrightarrow>
        (\<exists>k<length chars. update_pieces f q g ! i = scramble_span (Some (chars ! k))))
     \<and> (f < t_start (q ! i) \<longrightarrow> update_pieces f q g ! i = t_from (q ! i))"
proof (induction q arbitrary: g i)
  case Nil
  then show ?case by simp
next
  case (Cons t q)
  obtain piece c t' g1 where u: "update_task f t g = (piece, c, t', g1)"
    by (cases "update_task f t g") auto
  have g1: "rng_ok g1" using update_task_static [OF u] Cons.prems(1) by simp
  have t: "task_ok t" using Cons.prems(2) by simp
  show ?case
  proof (cases i)
    case 0
    with update_task_ok [OF Cons.prems(1) t u] u show ?thesis by simp
  next
    case (Suc j)
    then have "j < length q" using Cons.prems(3) by simp
    from Cons.IH [OF g1 _ this] Cons.prems(2) Suc u show ?thesis by simp
  qed
qed

lemma filter_all: "length (filter P xs) = length xs \<longleftrightarrow> (\<forall>x\<in>set xs. P x)"
proof (induction xs)
  case Nil
  then show ?case by simp
next
  case (Cons x xs)
  have "length (filter P xs) < Suc (length xs)" by (rule le_imp_less_Suc) simp
  then have "length (filter P xs) \<noteq> Suc (length xs)" by simp
  with Cons show ?case by auto
qed

lemma update_pieces_all_frozen:
  "\<forall>t\<in>set q. f \<ge> t_end t \<Longrightarrow> concat (update_pieces f q g) = concat (map t_to q)"
proof (induction q arbitrary: g)
  case Nil
  then show ?case by simp
next
  case (Cons t q)
  obtain piece c t' g1 where u: "update_task f t g = (piece, c, t', g1)"
    by (cases "update_task f t g") auto
  from Cons update_task_static [OF u] u show ?case by simp
qed

lemma update_result:
  assumes u: "update (e, ts) = Inr (e', ts')"
  shows "map t_from (queue ts') = map t_from (queue ts)"
    and "map t_to (queue ts') = map t_to (queue ts)"
    and "map t_start (queue ts') = map t_start (queue ts)"
    and "map t_end (queue ts') = map t_end (queue ts)"
    and "length (queue ts') = length (queue ts)"
    and "el ts' = concat (update_pieces (frame ts) (queue ts) (random e))"
    and "resolve ts' = resolve ts"
    and "promises e' = promises e"
    and "timers e' = timers e"
    and "timer_count e' = timer_count e"
    and "rng_ok (random e) \<longrightarrow> rng_ok (random e')"
    and "all_frozen ts \<longrightarrow>
           (\<exists>p. resolve ts = Some p \<and> resolved e' = resolved e @ [p])
           \<and> raf_pending e' = raf_pending e \<and> frame ts' = frame ts
           \<and> frameRequest ts' = frameRequest ts \<and> el ts' = concat (map t_to (queue ts))"
    and "\<not> all_frozen ts \<longrightarrow>
           resolved e' = resolved e \<and> raf_pending e' = raf_pending e @ [raf_count e]
           \<and> frameRequest ts' = Some (raf_count e) \<and> frame ts' = frame ts + 1
           \<and> microtasks e' = microtasks e \<and> reactions e' = reactions e"
    and "raf_count e' = (if all_frozen ts then raf_count e else Suc (raf_count e))"
proof -
  obtain out n q g where l: "update_loop (frame ts) (queue ts) (random e) = (out, n, q, g)"
    by (cases "update_loop (frame ts) (queue ts) (random e)") auto
  note st = update_loop_static [OF l]
  have fr: "n = length q \<longleftrightarrow> all_frozen ts"
    using st filter_all [of "\<lambda>t. frame ts \<ge> t_end t" "queue ts"] by (simp add: all_frozen_def)
  show "map t_from (queue ts') = map t_from (queue ts)"
    using u l st by (auto simp: update_def Let_def requestAnimationFrame_def split: if_splits option.splits)
  show "map t_to (queue ts') = map t_to (queue ts)"
    using u l st by (auto simp: update_def Let_def requestAnimationFrame_def split: if_splits option.splits)
  show "map t_start (queue ts') = map t_start (queue ts)"
    using u l st by (auto simp: update_def Let_def requestAnimationFrame_def split: if_splits option.splits)
  show "map t_end (queue ts') = map t_end (queue ts)"
    using u l st by (auto simp: update_def Let_def requestAnimationFrame_def split: if_splits option.splits)
  show "length (queue ts') = length (queue ts)"
    using u l st by (auto simp: update_def Let_def requestAnimationFrame_def split: if_splits option.splits)
  show "el ts' = concat (update_pieces (frame ts) (queue ts) (random e))"
    using u l st by (auto simp: update_def Let_def requestAnimationFrame_def split: if_splits option.splits)
  show "resolve ts' = resolve ts"
    using u l by (auto simp: update_def Let_def requestAnimationFrame_def split: if_splits option.splits)
  show "promises e' = promises e"
    using u l by (auto simp: update_def Let_def requestAnimationFrame_def call_resolve_def
        split: if_splits option.splits)
  show "timers e' = timers e"
    using u l by (auto simp: update_def Let_def requestAnimationFrame_def call_resolve_def
        split: if_splits option.splits)
  show "timer_count e' = timer_count e"
    using u l by (auto simp: update_def Let_def requestAnimationFrame_def call_resolve_def
        split: if_splits option.splits)
  show "rng_ok (random e) \<longrightarrow> rng_ok (random e')"
    using u l st by (auto simp: update_def Let_def requestAnimationFrame_def call_resolve_def
        split: if_splits option.splits)
  show "all_frozen ts \<longrightarrow>
           (\<exists>p. resolve ts = Some p \<and> resolved e' = resolved e @ [p])
           \<and> raf_pending e' = raf_pending e \<and> frame ts' = frame ts
           \<and> frameRequest ts' = frameRequest ts \<and> el ts' = concat (map t_to (queue ts))"
  proof
    assume a: "all_frozen ts"
    then have "n = length q" using fr by simp
    moreover have "out = concat (map t_to (queue ts))"
      using st a update_pieces_all_frozen [of "queue ts" "frame ts" "random e"]
      by (simp add: all_frozen_def)
    ultimately show "(\<exists>p. resolve ts = Some p \<and> resolved e' = resolved e @ [p])
           \<and> raf_pending e' = raf_pending e \<and> frame ts' = frame ts
           \<and> frameRequest ts' = frameRequest ts \<and> el ts' = concat (map t_to (queue ts))"
      using u l by (auto simp: update_def Let_def call_resolve_def split: if_splits option.splits)
  qed
  show "\<not> all_frozen ts \<longrightarrow>
           resolved e' = resolved e \<and> raf_pending e' = raf_pending e @ [raf_count e]
           \<and> frameRequest ts' = Some (raf_count e) \<and> frame ts' = frame ts + 1
           \<and> microtasks e' = microtasks e \<and> reactions e' = reactions e"
  proof
    assume "\<not> all_frozen ts"
    then have "n \<noteq> length q" using fr by simp
    then show "resolved e' = resolved e \<and> raf_pending e' = raf_pending e @ [raf_count e]
           \<and> frameRequest ts' = Some (raf_count e) \<and> frame ts' = frame ts + 1
           \<and> microtasks e' = microtasks e \<and> reactions e' = reactions e"
      using u l by (auto simp: update_def Let_def requestAnimationFrame_def)
  qed
  show "raf_count e' = (if all_frozen ts then raf_count e else Suc (raf_count e))"
    using u l fr by (auto simp: update_def Let_def requestAnimationFrame_def call_resolve_def
        split: if_splits option.splits)
qed

lemma update_succeeds:
  assumes "resolve ts = Some p"
  shows "\<exists>e' ts'. update (e, ts) = Inr (e', ts')"
proof -
  obtain out n q g where l: "update_loop (frame ts) (queue ts) (random e) = (out, n, q, g)"
    by (cases "update_loop (frame ts) (queue ts) (random e)") auto
  show ?thesis using assms l
    by (auto simp: update_def Let_def requestAnimationFrame_def)
qed

lemma update_task_ok_queue:
  assumes u: "update (e, ts) = Inr (e', ts')" and q: "qinv (e, ts)"
  shows "qinv (e', ts')"
proof -
  obtain out n q g where l: "update_loop (frame ts) (queue ts) (random e) = (out, n, q, g)"
    by (cases "update_loop (frame ts) (queue ts) (random e)") auto
  have "\<forall>t\<in>set q. task_ok t" using update_loop_ok [OF _ _ l] q by (simp add: qinv_def)
  moreover have "queue ts' = q"
    using u l by (auto simp: update_def Let_def requestAnimationFrame_def split: if_splits option.splits)
  moreover have "rng_ok (random e')" using update_result(11) [OF u] q by (simp add: qinv_def)
  ultimately show ?thesis by (simp add: qinv_def)
qed

lemma setText_Str:
  "setText tc (Str x) (e, ts) =
     (case update (before_update tc x (e, ts)) of Inl err \<Rightarrow> Inl err
      | Inr s' \<Rightarrow> Inr (promises e, s'))"
  by (simp add: setText_def before_update_def Let_def new_Promise_def split: prod.splits)

lemma before_update_fields:
  assumes "before_update tc x (e, ts) = (e1, ts1)"
  shows "resolve ts1 = Some (promises e)" and "promises e1 = Suc (promises e)"
    and "resolved e1 = resolved e" and "frame ts1 = 0" and "el ts1 = el ts"
    and "queue ts1 = fst (build_queue (tc (el ts)) x 0 (max (length (tc (el ts))) (length x)) (random e))"
    and "random e1 = snd (build_queue (tc (el ts)) x 0 (max (length (tc (el ts))) (length x)) (random e))"
    and "raf_pending e1 = (case frameRequest ts of None \<Rightarrow> raf_pending e
                           | Some k \<Rightarrow> filter (\<lambda>h. h \<noteq> k) (raf_pending e))"
    and "timers e1 = timers e" and "microtasks e1 = microtasks e" and "reactions e1 = reactions e"
    and "timer_count e1 = timer_count e" and "raf_count e1 = raf_count e"
    and "frameRequest ts1 = frameRequest ts"
  using assms
  by (auto simp: before_update_def Let_def cancelAnimationFrame_def split: option.splits)

lemma sinv_before_update:
  assumes "sinv (e, ts)"
  shows "ready (before_update tc x (e, ts))"
proof -
  obtain e1 ts1 where b: "before_update tc x (e, ts) = (e1, ts1)"
    by (cases "before_update tc x (e, ts)") auto
  note f = before_update_fields [OF b]
  have "raf_pending e1 = []" using assms f(8) by (auto simp: sinv_def split: option.splits)
  moreover have "\<forall>q\<in>set (resolved e1). q < promises e1" using assms f(2,3) by (auto simp: sinv_def)
  moreover have "distinct (resolved e1)" using assms f(3) by (simp add: sinv_def)
  moreover have "promises e \<notin> set (resolved e1)" using assms f(3) by (auto simp: sinv_def)
  moreover have "\<forall>h. frameRequest ts1 = Some h \<longrightarrow> h < raf_count e1"
    using assms f(13,14) by (simp add: sinv_def)
  ultimately show ?thesis using b f(1,2) by (simp add: ready_def)
qed

lemma sinv_pop:
  assumes "sinv (e, ts)" and "raf_pending e = h # hs"
  shows "ready (e\<lparr>raf_pending := hs\<rparr>, ts)"
  using assms by (auto simp: sinv_def ready_def)

lemma ready_update:
  assumes r: "ready (e, ts)"
  shows "\<exists>e' ts'. update (e, ts) = Inr (e', ts') \<and> sinv (e', ts')"
proof -
  from r obtain p where p: "resolve ts = Some p" "p < promises e" "p \<notin> set (resolved e)"
    by (auto simp: ready_def)
  from update_succeeds [OF p(1)] obtain e' ts' where u: "update (e, ts) = Inr (e', ts')" by blast
  note f = update_result [OF u]
  have "sinv (e', ts')"
  proof (cases "all_frozen ts")
    case True
    with f(12) p have a: "resolved e' = resolved e @ [p]" "raf_pending e' = []" "frame ts' = frame ts"
      using r by (auto simp: ready_def)
    have "all_frozen ts'" using True f(4) a(3)
      by (metis all_frozen_def list.set_map image_iff)
    moreover have "el ts' = concat (map t_to (queue ts'))" using True f(12,2) by simp
    moreover have "\<forall>h. frameRequest ts' = Some h \<longrightarrow> h < raf_count e'"
      using True f(12,14) r by (simp add: ready_def)
    ultimately show ?thesis using a r p f(7,8) by (auto simp: sinv_def ready_def)
  next
    case False
    with f(13) have a: "resolved e' = resolved e" "raf_pending e' = [raf_count e]"
      "frameRequest ts' = Some (raf_count e)"
      using r by (auto simp: ready_def)
    moreover have "raf_count e' = Suc (raf_count e)" using False f(14) by simp
    ultimately show ?thesis using r p f(7,8) by (auto simp: sinv_def ready_def)
  qed
  with u show ?thesis by blast
qed

lemma frame_event_sinv:
  assumes "sinv (e, ts)"
  shows "\<exists>e' ts'. frame_event (e, ts) = Inr (e', ts') \<and> sinv (e', ts')"
proof (cases "raf_pending e")
  case Nil
  with assms show ?thesis by (simp add: frame_event_def)
next
  case (Cons h hs)
  from ready_update [OF sinv_pop [OF assms Cons]] Cons show ?thesis
    by (simp add: frame_event_def)
qed

lemma setText_sinv:
  assumes "sinv (e, ts)"
  shows "\<exists>e' ts'. setText tc (Str x) (e, ts) = Inr (promises e, e', ts') \<and> sinv (e', ts')"
proof -
  obtain e1 ts1 where b: "before_update tc x (e, ts) = (e1, ts1)"
    by (cases "before_update tc x (e, ts)") auto
  from sinv_before_update [OF assms, of tc x] b have "ready (e1, ts1)" by simp
  from ready_update [OF this] b show ?thesis by (auto simp: setText_Str)
qed

lemma sstep_sinv:
  assumes "sinv s"
  shows "\<exists>s'. sstep tc ev s = Inr s' \<and> sinv s'"
proof (cases s)
  case (Pair e ts)
  show ?thesis
  proof (cases ev)
    case (SetText x)
    from setText_sinv [of e ts tc x] assms Pair SetText show ?thesis by auto
  next
    case Frame
    from frame_event_sinv [of e ts] assms Pair Frame show ?thesis by auto
  qed
qed

lemma srun_invariant:
  assumes step: "\<And>ev s. I s \<Longrightarrow> \<exists>s'. sstep tc ev s = Inr s' \<and> I s'"
    and "I s"
  shows "\<exists>s'. srun tc evs s = Inr s' \<and> I s'"
  using \<open>I s\<close>
proof (induction evs arbitrary: s)
  case Nil
  then show ?case by simp
next
  case (Cons ev evs)
  from step [OF Cons.prems, of ev] obtain s1 where s1: "sstep tc ev s = Inr s1" "I s1" by blast
  from Cons.IH [OF s1(2)] s1(1) show ?case by simp
qed

lemma srun_append:
  "srun tc (xs @ ys) s = (case srun tc xs s of Inl err \<Rightarrow> Inl err | Inr s' \<Rightarrow> srun tc ys s')"
  by (induction xs arbitrary: s) (auto split: sum.splits)

lemma sinv_initial: "sinv (env0 g, TextScramble_new m)"
  by (simp add: sinv_def env0_def TextScramble_new_def)

lemma qinv_initial: "rng_ok g \<Longrightarrow> qinv (env0 g, TextScramble_new m)"
  by (simp add: qinv_def env0_def TextScramble_new_def)

lemma before_update_qinv:
  assumes "rng_ok (random e)"
  shows "qinv (before_update tc x (e, ts))"
proof -
  obtain e1 ts1 where b: "before_update tc x (e, ts) = (e1, ts1)"
    by (cases "before_update tc x (e, ts)") auto
  note f = before_update_fields [OF b]
  from build_queue_range [OF assms] f(6,7) b show ?thesis
    by (auto simp: qinv_def task_ok_def)
qed

lemma sstep_qinv:
  assumes "qinv s" and "sstep tc ev s = Inr s'"
  shows "qinv s'"
proof (cases s)
  case (Pair e ts)
  obtain e' ts' where s': "s' = (e', ts')" by (cases s') auto
  show ?thesis
  proof (cases ev)
    case (SetText x)
    have "qinv (before_update tc x (e, ts))"
      using before_update_qinv assms(1) Pair by (simp add: qinv_def)
    moreover have "update (before_update tc x (e, ts)) = Inr (e', ts')"
      using assms(2) Pair SetText s' by (auto simp: setText_Str split: sum.splits)
    ultimately show ?thesis using update_task_ok_queue s'
      by (cases "before_update tc x (e, ts)") auto
  next
    case Frame
    show ?thesis
    proof (cases "raf_pending e")
      case Nil
      with assms Pair Frame show ?thesis by (simp add: frame_event_def)
    next
      case (Cons h hs)
      then have "update (e\<lparr>raf_pending := hs\<rparr>, ts) = Inr (e', ts')"
        using assms(2) Pair Frame s' by (simp add: frame_event_def)
      moreover have "qinv (e\<lparr>raf_pending := hs\<rparr>, ts)" using assms(1) Pair by (simp add: qinv_def)
      ultimately show ?thesis using update_task_ok_queue s' by blast
    qed
  qed
qed

lemma reachable_inv:
  assumes "rng_ok g"
  shows "\<exists>s. srun tc evs (env0 g, TextScramble_new m) = Inr s \<and> sinv s \<and> qinv s"
proof -
  have "\<exists>s'. srun tc evs (env0 g, TextScramble_new m) = Inr s' \<and> (sinv s' \<and> qinv s')"
  proof (rule srun_invariant [where I = "\<lambda>s. sinv s \<and> qinv s"])
    fix ev s
    assume a: "sinv s \<and> qinv s"
    then obtain s' where s': "sstep tc ev s = Inr s'" "sinv s'" using sstep_sinv by blast
    with a sstep_qinv show "\<exists>s'. sstep tc ev s = Inr s' \<and> sinv s' \<and> qinv s'" by blast
  next
    show "sinv (env0 g, TextScramble_new m) \<and> qinv (env0 g, TextScramble_new m)"
      using assms sinv_initial qinv_initial by simp
  qed
  then show ?thesis by simp
qed

lemma reachable_sinv: "\<exists>s. srun tc evs (env0 g, TextScramble_new m) = Inr s \<and> sinv s"
proof (rule srun_invariant [where I = sinv])
  fix ev s
  assume "sinv s"
  then show "\<exists>s'. sstep tc ev s = Inr s' \<and> sinv s'" by (rule sstep_sinv)
next
  show "sinv (env0 g, TextScramble_new m)" by (rule sinv_initial)
qed

lemma frames_idle: "raf_pending e = [] \<Longrightarrow> srun tc (replicate k Frame) (e, ts) = Inr (e, ts)"
  by (induction k) (simp_all add: frame_event_def)

lemma frame_event_static:
  assumes "frame_event (e, ts) = Inr (e', ts')"
  shows "resolve ts' = resolve ts \<and> promises e' = promises e
         \<and> map t_to (queue ts') = map t_to (queue ts) \<and> map t_end (queue ts') = map t_end (queue ts)
         \<and> map t_from (queue ts') = map t_from (queue ts) \<and> map t_start (queue ts') = map t_start (queue ts)
         \<and> frame ts \<le> frame ts'"
proof (cases "raf_pending e")
  case Nil
  with assms show ?thesis by (simp add: frame_event_def)
next
  case (Cons h hs)
  then have u: "update (e\<lparr>raf_pending := hs\<rparr>, ts) = Inr (e', ts')"
    using assms by (simp add: frame_event_def)
  note f = update_result [OF u]
  have "frame ts \<le> frame ts'" using f(12,13) by (cases "all_frozen ts") auto
  with f show ?thesis by simp
qed

lemma frames_static:
  "srun tc (replicate k Frame) (e, ts) = Inr (e', ts') \<Longrightarrow>
     resolve ts' = resolve ts \<and> promises e' = promises e
     \<and> map t_to (queue ts') = map t_to (queue ts) \<and> map t_end (queue ts') = map t_end (queue ts)
     \<and> map t_from (queue ts') = map t_from (queue ts) \<and> map t_start (queue ts') = map t_start (queue ts)
     \<and> frame ts \<le> frame ts'"
proof (induction k arbitrary: e ts)
  case 0
  then show ?case by simp
next
  case (Suc k)
  from Suc.prems obtain e1 ts1 where s1: "frame_event (e, ts) = Inr (e1, ts1)"
    and r: "srun tc (replicate k Frame) (e1, ts1) = Inr (e', ts')"
    by (auto split: sum.splits)
  from frame_event_static [OF s1] Suc.IH [OF r] show ?case by simp
qed

lemma frames_complete:
  "sinv (e, ts) \<Longrightarrow> raf_pending e \<noteq> [] \<Longrightarrow> \<forall>t\<in>set (queue ts). t_end t \<le> frame ts + int k \<Longrightarrow>
     \<exists>e' ts'. srun tc (replicate (Suc k) Frame) (e, ts) = Inr (e', ts') \<and> raf_pending e' = []
        \<and> el ts' = concat (map t_to (queue ts))"
proof (induction k arbitrary: e ts)
  case 0
  from 0 obtain h hs where h: "raf_pending e = h # hs" by (cases "raf_pending e") auto
  from ready_update [OF sinv_pop [OF 0(1) h]] obtain e' ts'
    where u: "update (e\<lparr>raf_pending := hs\<rparr>, ts) = Inr (e', ts')" by blast
  have hs: "hs = []" using 0(1) h by (auto simp: sinv_def)
  have "all_frozen ts" using 0(3) by (simp add: all_frozen_def)
  with update_result(12) [OF u] hs have "raf_pending e' = [] \<and> el ts' = concat (map t_to (queue ts))"
    by simp
  with u h show ?case by (simp add: frame_event_def)
next
  case (Suc k)
  from Suc obtain h hs where h: "raf_pending e = h # hs" by (cases "raf_pending e") auto
  have hs: "hs = []" using Suc.prems(1) h by (auto simp: sinv_def)
  from ready_update [OF sinv_pop [OF Suc.prems(1) h]] obtain e' ts'
    where u: "update (e\<lparr>raf_pending := hs\<rparr>, ts) = Inr (e', ts')" and i: "sinv (e', ts')" by blast
  have fe: "frame_event (e, ts) = Inr (e', ts')" using u h by (simp add: frame_event_def)
  note f = update_result [OF u]
  show ?case
  proof (cases "all_frozen ts")
    case True
    with f(12) hs have d: "raf_pending e' = []" "el ts' = concat (map t_to (queue ts))" by simp_all
    from frames_idle [OF d(1), of tc "Suc k" ts'] fe d show ?thesis by simp
  next
    case False
    with f(13) hs have d: "raf_pending e' \<noteq> []" "frame ts' = frame ts + 1" by simp_all
    have "\<forall>t\<in>set (queue ts'). t_end t \<le> frame ts' + int k"
    proof
      fix t
      assume "t \<in> set (queue ts')"
      then have "t_end t \<in> set (map t_end (queue ts'))" by simp
      then have "t_end t \<in> set (map t_end (queue ts))" using f(4) by simp
      then obtain t0 where "t0 \<in> set (queue ts)" "t_end t0 = t_end t" by auto
      with Suc.prems(3) have "t_end t \<le> frame ts + int (Suc k)" by metis
      with d(2) show "t_end t \<le> frame ts' + int k" by simp
    qed
    from Suc.IH [OF i d(1) this] obtain e2 ts2
      where r: "srun tc (replicate (Suc k) Frame) (e', ts') = Inr (e2, ts2)" "raf_pending e2 = []"
        "el ts2 = concat (map t_to (queue ts'))" by blast
    with fe f(2) show ?thesis by simp
  qed
qed

lemma concat_char_or_empty:
  assumes "length x \<le> n"
  shows "concat (map (char_or_empty x) [0..<n]) = x"
proof -
  have "[0..<n] = [0..<length x] @ [length x..<n]"
    using assms by (metis le_add_diff_inverse upt_add_eq_append zero_le)
  moreover have "concat (map (char_or_empty x) [0..<length x]) = x"
  proof -
    have "map (char_or_empty x) [0..<length x] = map (\<lambda>i. [x ! i]) [0..<length x]"
      by (simp add: char_or_empty_def)
    then have "concat (map (char_or_empty x) [0..<length x]) = concat (map (\<lambda>i. [x ! i]) [0..<length x])"
      by (rule arg_cong)
    also have "\<dots> = map (\<lambda>i. x ! i) [0..<length x]"
      by (rule concat_map_singleton)
    also have "\<dots> = x" by (rule map_nth)
    finally show ?thesis .
  qed
  moreover have "concat (map (char_or_empty x) [length x..<n]) = []"
    by (simp add: char_or_empty_def)
  ultimately show ?thesis by simp
qed

lemma build_queue_to:
  "map t_to (fst (build_queue old new i n g)) = map (char_or_empty new) [i..<n]"
proof (rule nth_equalityI)
  show "length (map t_to (fst (build_queue old new i n g))) = length (map (char_or_empty new) [i..<n])"
    by (simp add: build_queue_length)
next
  fix j
  assume "j < length (map t_to (fst (build_queue old new i n g)))"
  then have j: "j < n - i" by (simp add: build_queue_length)
  with build_queue_nth [OF j, of old new g] show
    "map t_to (fst (build_queue old new i n g)) ! j = map (char_or_empty new) [i..<n] ! j"
    by (simp add: build_queue_length)
qed

lemmas evaluate = env0_def TextScramble_new_def setText_def update_def update_task_def Let_def
  new_Promise_def cancelAnimationFrame_def requestAnimationFrame_def call_resolve_def
  Math_random_def build_queue.simps char_or_empty_def char_at_def chars_def scramble_span_def js_def
  frame_event_def promise_then_def setTimeout_def clearTimeout_def WordRotator_new_def
  WordRotator_start_def WordRotator_next_def WordRotator_stop_def then_callback_def word_at_def
  fmul_def round64_five_halves round64_nine_eighths sixteenth_less_028
  sixteenth_less_028_scaled

lemma setText_total:
  "\<exists>e' ts'. setText tc (Str x) (e, ts) = Inr (promises e, e', ts')
      \<and> update (before_update tc x (e, ts)) = Inr (e', ts')"
proof -
  obtain e1 ts1 where b: "before_update tc x (e, ts) = (e1, ts1)"
    by (cases "before_update tc x (e, ts)") auto
  from update_succeeds [OF before_update_fields(1) [OF b]] obtain e' ts'
    where "update (e1, ts1) = Inr (e', ts')" by blast
  with b show ?thesis by (simp add: setText_Str)
qed

lemma rng_ok_const: "rng_ok (\<lambda>n. 1 / 16)"
  by (simp add: rng_ok_def round64_sixteenth)

lemma update_superseded:
  assumes "update (e, ts) = Inr (e', ts')" and "superseded q (e, ts)"
  shows "superseded q (e', ts')"
proof -
  note f = update_result [OF assms(1)]
  show ?thesis
  proof (cases "all_frozen ts")
    case True
    with f(12) obtain p where "resolve ts = Some p" "resolved e' = resolved e @ [p]" by blast
    with assms(2) f(7,8) show ?thesis by (auto simp: superseded_def)
  next
    case False
    with f(13) have "resolved e' = resolved e" by simp
    with assms(2) f(7,8) show ?thesis by (auto simp: superseded_def)
  qed
qed

lemma sstep_superseded:
  assumes "superseded q s" and "sstep tc ev s = Inr s'"
  shows "superseded q s'"
proof (cases s)
  case (Pair e ts)
  obtain e' ts' where s': "s' = (e', ts')" by (cases s') auto
  show ?thesis
  proof (cases ev)
    case (SetText x)
    obtain e1 ts1 where b: "before_update tc x (e, ts) = (e1, ts1)"
      by (cases "before_update tc x (e, ts)") auto
    note f = before_update_fields [OF b]
    have "superseded q (e1, ts1)" using assms(1) Pair f(1,2,3) by (auto simp: superseded_def)
    moreover have "update (e1, ts1) = Inr (e', ts')"
      using assms(2) Pair SetText s' b by (auto simp: setText_Str split: sum.splits)
    ultimately show ?thesis using update_superseded s' by blast
  next
    case Frame
    show ?thesis
    proof (cases "raf_pending e")
      case Nil
      with assms Pair Frame show ?thesis by (simp add: frame_event_def)
    next
      case (Cons h hs)
      then have "update (e\<lparr>raf_pending := hs\<rparr>, ts) = Inr (e', ts')"
        using assms(2) Pair Frame s' by (simp add: frame_event_def)
      moreover have "superseded q (e\<lparr>raf_pending := hs\<rparr>, ts)"
        using assms(1) Pair by (simp add: superseded_def)
      ultimately show ?thesis using update_superseded s' by blast
    qed
  qed
qed

lemma srun_superseded:
  "superseded q s \<Longrightarrow> srun tc evs s = Inr s' \<Longrightarrow> superseded q s'"
proof (induction evs arbitrary: s)
  case Nil
  then show ?case by simp
next
  case (Cons ev evs)
  from Cons.prems(2) obtain s1 where s1: "sstep tc ev s = Inr s1" "srun tc evs s1 = Inr s'"
    by (auto split: sum.splits)
  from Cons.IH [OF sstep_superseded [OF Cons.prems(1) s1(1)] s1(2)] show ?case .
qed

lemma srun_sinv: "sinv s \<Longrightarrow> srun tc evs s = Inr s' \<Longrightarrow> sinv s'"
  using srun_invariant [where I = sinv, OF sstep_sinv, of s tc evs] by auto

lemma distinct_count: "distinct xs \<Longrightarrow> count_list xs p = (if p \<in> set xs then 1 else 0)"
  by (induction xs) auto

lemma setText_effect:
  assumes i: "sinv (e, ts)"
  shows "\<exists>e1 ts1. setText tc (Str x) (e, ts) = Inr (promises e, e1, ts1) \<and> sinv (e1, ts1)
     \<and> resolve ts1 = Some (promises e)
     \<and> frame ts1 = (if raf_pending e1 = [] then 0 else 1)
     \<and> (raf_pending e1 = [] \<or> raf_pending e1 = [raf_count e])
     \<and> concat (map t_to (queue ts1)) = x
     \<and> (rng_ok (random e) \<longrightarrow> qinv (e1, ts1))
     \<and> promises e1 = Suc (promises e)
     \<and> set (resolved e1) \<subseteq> insert (promises e) (set (resolved e))"
proof -
  obtain e0 ts0 where b: "before_update tc x (e, ts) = (e0, ts0)"
    by (cases "before_update tc x (e, ts)") auto
  note f = before_update_fields [OF b]
  from sinv_before_update [OF i, of tc x] b have rd: "ready (e0, ts0)" by simp
  from ready_update [OF rd] obtain e1 ts1 where u: "update (e0, ts0) = Inr (e1, ts1)"
    and i1: "sinv (e1, ts1)" by blast
  note r = update_result [OF u]
  have s: "setText tc (Str x) (e, ts) = Inr (promises e, e1, ts1)" using b u by (simp add: setText_Str)
  have p0: "raf_pending e0 = []" using rd by (simp add: ready_def)
  have fr: "frame ts1 = (if raf_pending e1 = [] then 0 else 1)"
    using r(12,13) p0 f(4) by (cases "all_frozen ts0") auto
  have pe: "raf_pending e1 = [] \<or> raf_pending e1 = [raf_count e]"
    using r(12,13) p0 f(13) by (cases "all_frozen ts0") auto
  have "map t_to (queue ts1) = map (char_or_empty x) [0..<max (length (tc (el ts))) (length x)]"
    using r(2) f(6) by (simp add: build_queue_to)
  then have c: "concat (map t_to (queue ts1)) = x" by (simp add: concat_char_or_empty)
  have q: "rng_ok (random e) \<longrightarrow> qinv (e1, ts1)"
    using before_update_qinv [of e tc x ts] b u update_task_ok_queue by auto
  have pr: "promises e1 = Suc (promises e)" using r(8) f(2) by simp
  have rs: "set (resolved e1) \<subseteq> insert (promises e) (set (resolved e))"
    using r(12,13) f(1,3) by (cases "all_frozen ts0") auto
  from s i1 r(7) f(1) fr pe c q pr rs show ?thesis by simp
qed

lemma frames_finish:
  assumes i: "sinv (e, ts)" and b: "\<forall>t\<in>set (queue ts). t_end t \<le> 78"
    and f: "raf_pending e \<noteq> [] \<longrightarrow> 1 \<le> frame ts" and p: "resolve ts = Some p" and k: "78 \<le> k"
  shows "\<exists>e' ts'. srun tc (replicate k Frame) (e, ts) = Inr (e', ts') \<and> raf_pending e' = []
     \<and> el ts' = concat (map t_to (queue ts))"
proof (cases "raf_pending e = []")
  case True
  with i p have "el ts = concat (map t_to (queue ts))" by (simp add: sinv_def)
  with frames_idle [OF True, of tc k ts] True show ?thesis by simp
next
  case False
  with f have "1 \<le> frame ts" by simp
  with b have "\<forall>t\<in>set (queue ts). t_end t \<le> frame ts + int 77" by fastforce
  from frames_complete [OF i False this, of tc] obtain e1 ts1
    where r: "srun tc (replicate 78 Frame) (e, ts) = Inr (e1, ts1)" "raf_pending e1 = []"
      "el ts1 = concat (map t_to (queue ts))" by (auto simp: eval_nat_numeral)
  have "replicate k Frame = replicate 78 Frame @ replicate (k - 78) Frame"
    using k by (simp add: replicate_add [symmetric])
  then have "srun tc (replicate k Frame) (e, ts) = srun tc (replicate (k - 78) Frame) (e1, ts1)"
    using r(1) by (simp add: srun_append)
  with frames_idle [OF r(2), of tc "k - 78" ts1] r show ?thesis by simp
qed

lemma task_ok_end: "task_ok t \<Longrightarrow> t_end t \<le> 78"
  by (simp add: task_ok_def in_range_def)

lemma setText_queue:
  "\<exists>e' ts'. setText tc (Str newText) (e, ts) = Inr (promises e, e', ts')
     \<and> length (queue ts') = max (length (tc (el ts))) (length newText)
     \<and> (\<forall>i<length (queue ts').
           t_from (queue ts' ! i) = (if i < length (tc (el ts)) then [tc (el ts) ! i] else [])
         \<and> t_to (queue ts' ! i) = (if i < length newText then [newText ! i] else []))"
proof -
  let ?old = "tc (el ts)"
  let ?n = "max (length ?old) (length newText)"
  let ?b = "build_queue ?old newText 0 ?n (random e)"
  obtain e1 ts1 where b: "before_update tc newText (e, ts) = (e1, ts1)"
    by (cases "before_update tc newText (e, ts)") auto
  from setText_total [of tc newText e ts] b obtain e' ts'
    where s: "setText tc (Str newText) (e, ts) = Inr (promises e, e', ts')"
      and u: "update (e1, ts1) = Inr (e', ts')" by auto
  note f = before_update_fields [OF b]
  note r = update_result [OF u]
  have len: "length (queue ts') = ?n" using r(5) f(6) by (simp add: build_queue_length)
  have "\<forall>i<length (queue ts').
           t_from (queue ts' ! i) = (if i < length ?old then [?old ! i] else [])
         \<and> t_to (queue ts' ! i) = (if i < length newText then [newText ! i] else [])"
  proof (intro allI impI)
    fix i
    assume i: "i < length (queue ts')"
    then have i1: "i < length (queue ts1)" using r(5) by simp
    have "t_from (queue ts' ! i) = map t_from (queue ts') ! i" using i by simp
    also have "\<dots> = t_from (queue ts1 ! i)" using r(1) i1 by simp
    finally have a: "t_from (queue ts' ! i) = t_from (fst ?b ! i)" using f(6) by simp
    have "t_to (queue ts' ! i) = map t_to (queue ts') ! i" using i by simp
    also have "\<dots> = t_to (queue ts1 ! i)" using r(2) i1 by simp
    finally have c: "t_to (queue ts' ! i) = t_to (fst ?b ! i)" using f(6) by simp
    have "i < ?n - 0" using i len by simp
    from build_queue_nth [OF this, of ?old newText "random e"] a c
    show "t_from (queue ts' ! i) = (if i < length ?old then [?old ! i] else [])
         \<and> t_to (queue ts' ! i) = (if i < length newText then [newText ! i] else [])"
      by (simp add: char_or_empty_def)
  qed
  with s len show ?thesis by blast
qed

lemma sinv_other_fields:
  "sinv (e\<lparr>timers := a\<rparr>, ts) = sinv (e, ts)"
  "sinv (e\<lparr>microtasks := b\<rparr>, ts) = sinv (e, ts)"
  "sinv (e\<lparr>reactions := c\<rparr>, ts) = sinv (e, ts)"
  "sinv (e\<lparr>timer_count := d\<rparr>, ts) = sinv (e, ts)"
  by (simp_all add: sinv_def)

lemma setText_timers:
  assumes "setText tc (Str x) (e, ts) = Inr (p, e1, ts1)"
  shows "timers e1 = timers e"
proof -
  obtain e0 ts0 where b: "before_update tc x (e, ts) = (e0, ts0)"
    by (cases "before_update tc x (e, ts)") auto
  from assms b have u: "update (e0, ts0) = Inr (e1, ts1)"
    by (auto simp: setText_Str split: sum.splits)
  from update_result(9) [OF u] before_update_fields(9) [OF b] show ?thesis by simp
qed

lemma next_effect:
  assumes "rinv (e, r)"
  shows "\<exists>e1 ts1.
       setText tc (Str (words r ! nat (currentIndex r))) (e, scrambler r) = Inr (promises e, e1, ts1)
     \<and> WordRotator_next tc (e, r)
         = Inr (promise_then (promises e) e1,
                r\<lparr>scrambler := ts1,
                  currentIndex := (currentIndex r + 1) mod int (length (words r))\<rparr>)
     \<and> rinv (promise_then (promises e) e1,
             r\<lparr>scrambler := ts1, currentIndex := (currentIndex r + 1) mod int (length (words r))\<rparr>)
     \<and> timers (promise_then (promises e) e1) = timers e
     \<and> (promises e \<in> set (reactions (promise_then (promises e) e1))
          \<or> promises e \<in> set (microtasks (promise_then (promises e) e1)))
     \<and> (raf_pending e1 \<noteq> [] \<longrightarrow> promises e \<notin> set (resolved (promise_then (promises e) e1)))
     \<and> concat (map t_to (queue ts1)) = words r ! nat (currentIndex r)"
proof -
  let ?x = "words r ! nat (currentIndex r)"
  let ?n = "int (length (words r))"
  from assms have w: "words r \<noteq> []" "0 \<le> currentIndex r" "currentIndex r < ?n"
    and i: "sinv (e, scrambler r)" by (simp_all add: rinv_def)
  have wa: "word_at (words r) (currentIndex r) = Str ?x" using w by (simp add: word_at_def)
  from setText_effect [OF i, of tc ?x] obtain e1 ts1
    where s: "setText tc (Str ?x) (e, scrambler r) = Inr (promises e, e1, ts1)"
      and i1: "sinv (e1, ts1)" and p1: "resolve ts1 = Some (promises e)"
      and c1: "concat (map t_to (queue ts1)) = ?x" by blast
  let ?e2 = "promise_then (promises e) e1"
  let ?r2 = "r\<lparr>scrambler := ts1, currentIndex := (currentIndex r + 1) mod ?n\<rparr>"
  have nx: "WordRotator_next tc (e, r) = Inr (?e2, ?r2)"
    using s wa by (simp add: WordRotator_next_def Let_def)
  have i2: "sinv (?e2, ts1)" using i1 by (simp add: promise_then_def sinv_other_fields)
  have n0: "0 < ?n" using w by simp
  then have "0 \<le> (currentIndex r + 1) mod ?n \<and> (currentIndex r + 1) mod ?n < ?n" by simp
  with i2 w have ri: "rinv (?e2, ?r2)" by (simp add: rinv_def)
  have tm: "timers ?e2 = timers e" using setText_timers [OF s] by (simp add: promise_then_def)
  have wt: "promises e \<in> set (reactions ?e2) \<or> promises e \<in> set (microtasks ?e2)"
    by (simp add: promise_then_def)
  have ur: "raf_pending e1 \<noteq> [] \<longrightarrow> promises e \<notin> set (resolved ?e2)"
    using i1 p1 by (auto simp: sinv_def promise_then_def)
  from s nx ri tm wt ur c1 show ?thesis by blast
qed

lemma rstep_rinv:
  assumes "rinv s"
  shows "\<exists>s'. rstep tc ev s = Inr s' \<and> rinv s' \<and> words (snd s') = words (snd s)"
proof (cases s)
  case (Pair e r)
  with assms have ri: "rinv (e, r)" by simp
  then have i: "sinv (e, scrambler r)" by (simp add: rinv_def)
  show ?thesis
  proof (cases ev)
    case RFrame
    from frame_event_sinv [OF i] obtain e' ts'
      where "frame_event (e, scrambler r) = Inr (e', ts')" "sinv (e', ts')" by blast
    with ri Pair RFrame show ?thesis by (simp add: rinv_def)
  next
    case Microtask
    show ?thesis
    proof (cases "microtasks e")
      case Nil
      with ri Pair Microtask show ?thesis by simp
    next
      case (Cons p ps)
      with ri Pair Microtask show ?thesis
        by (simp add: then_callback_def setTimeout_def rinv_def Let_def sinv_def)
    qed
  next
    case Timeout
    show ?thesis
    proof (cases "timers e")
      case Nil
      with ri Pair Timeout show ?thesis by simp
    next
      case (Cons k ks)
      have "rinv (e\<lparr>timers := ks\<rparr>, r)" using ri by (simp add: rinv_def sinv_other_fields)
      from next_effect [OF this, of tc] Pair Timeout Cons show ?thesis by auto
    qed
  next
    case Stop
    with ri Pair show ?thesis
      by (cases "timeoutId r") (simp_all add: WordRotator_stop_def clearTimeout_def rinv_def sinv_other_fields)
  qed
qed

lemma rrun_rinv:
  "rinv s \<Longrightarrow> \<exists>s'. rrun tc evs s = Inr s' \<and> rinv s' \<and> words (snd s') = words (snd s)"
proof (induction evs arbitrary: s)
  case Nil
  then show ?case by simp
next
  case (Cons ev evs)
  from rstep_rinv [OF Cons.prems, of tc ev] obtain s1
    where s1: "rstep tc ev s = Inr s1" "rinv s1" "words (snd s1) = words (snd s)" by blast
  from Cons.IH [OF s1(2)] s1(1,3) show ?case by auto
qed

lemma new_rinv:
  assumes "ws \<noteq> []"
  shows "\<exists>e r. WordRotator_new tc m ws opt (env0 g) = Inr (e, r) \<and> rinv (e, r) \<and> words r = ws
     \<and> currentIndex r = 1 mod int (length ws)
     \<and> concat (map t_to (queue (scrambler r))) = ws ! 0"
proof -
  let ?r0 = "\<lparr>words = ws, interval = (case opt of None \<Rightarrow> 3000 | Some i \<Rightarrow> i), currentIndex = 0,
            scrambler = TextScramble_new m, timeoutId = None\<rparr>"
  have "rinv (env0 g, ?r0)" using assms sinv_initial [of g m] by (simp add: rinv_def)
  from next_effect [OF this, of tc] show ?thesis
    by (auto simp: WordRotator_new_def WordRotator_start_def)
qed

section \<open>The claims\<close>

text \<open>
  C2. For every displayed text \<open>tc (el ts)\<close> and every string \<open>newText\<close>,
  \<^verbatim>\<open>setText\<close> returns, and the queue it leaves has exactly
  \<open>max (length oldText) (length newText)\<close> tasks; at every position \<open>i\<close> the task's
  \<open>from\<close> is \<open>oldText[i]\<close>, or the empty string when \<open>i\<close> is past the end of the old
  text, and its \<open>to\<close> is \<open>newText[i]\<close>, or the empty string past the end of the new text.
\<close>

theorem setText_builds_session:
  "\<exists>p e' ts'. setText tc (Str newText) (e, ts) = Inr (p, e', ts')
     \<and> length (queue ts') = max (length (tc (el ts))) (length newText)
     \<and> (\<forall>i<length (queue ts').
           t_from (queue ts' ! i) = (if i < length (tc (el ts)) then [tc (el ts) ! i] else [])
         \<and> t_to (queue ts' ! i) = (if i < length newText then [newText ! i] else []))"
  using setText_queue [of tc newText e ts] by blast

theorem setText_builds_session_witness:
  "\<exists>p e' ts'. setText (\<lambda>m. m) (Str (js ''xyz'')) (env0 (\<lambda>n. 1 / 16), TextScramble_new (js ''AB''))
                 = Inr (p, e', ts')
     \<and> length (queue ts') = 3
     \<and> t_from (queue ts' ! 1) = js ''B'' \<and> t_to (queue ts' ! 1) = js ''y''
     \<and> t_from (queue ts' ! 2) = [] \<and> t_to (queue ts' ! 2) = js ''z''"
  using setText_builds_session [of "\<lambda>m. m" "js ''xyz''" "env0 (\<lambda>n. 1 / 16)" "TextScramble_new (js ''AB'')"]
  by (auto simp: js_def TextScramble_new_def)

text \<open>
  C7. When every result of \<^verbatim>\<open>Math.random()\<close> is a double in \<open>[0, 1)\<close>, every task that
  \<^verbatim>\<open>setText\<close> creates has an integer \<open>start\<close> in \<open>[0, 40)\<close> and an integer \<open>end\<close> in
  \<open>[start, start + 40)\<close>; hence \<open>start \<le> end\<close> and \<open>end < 80\<close>, at every position of
  the session. The products are the rounded ones of double arithmetic: the largest double
  below 1 times 40 rounds to a double below 40 (lemma \<open>fmul_bound\<close>).
\<close>

theorem setText_task_ranges:
  assumes "rng_ok (random e)"
  shows "\<exists>p e' ts'. setText tc (Str newText) (e, ts) = Inr (p, e', ts')
     \<and> (\<forall>t\<in>set (queue ts'). 0 \<le> t_start t \<and> t_start t < 40
            \<and> t_start t \<le> t_end t \<and> t_end t < t_start t + 40 \<and> t_end t < 80)"
proof -
  from setText_total [of tc newText e ts] obtain e' ts'
    where s: "setText tc (Str newText) (e, ts) = Inr (promises e, e', ts')"
      and u: "update (before_update tc newText (e, ts)) = Inr (e', ts')" by auto
  have "qinv (before_update tc newText (e, ts))" using assms by (rule before_update_qinv)
  with u have "qinv (e', ts')"
    by (cases "before_update tc newText (e, ts)") (auto dest: update_task_ok_queue)
  then have "\<forall>t\<in>set (queue ts'). in_range t" by (simp add: qinv_def task_ok_def)
  then have "\<forall>t\<in>set (queue ts'). 0 \<le> t_start t \<and> t_start t < 40
            \<and> t_start t \<le> t_end t \<and> t_end t < t_start t + 40 \<and> t_end t < 80"
    by (auto simp: in_range_def)
  with s show ?thesis by blast
qed

theorem setText_task_ranges_witness:
  "rng_ok (random (env0 (\<lambda>n. 1 / 16)))
   \<and> (\<exists>p e' ts'. setText (\<lambda>m. m) (Str (js ''xyz'')) (env0 (\<lambda>n. 1 / 16), TextScramble_new (js ''AB''))
                 = Inr (p, e', ts')
        \<and> queue ts' \<noteq> []
        \<and> (\<forall>t\<in>set (queue ts'). 0 \<le> t_start t \<and> t_start t < 40
            \<and> t_start t \<le> t_end t \<and> t_end t < t_start t + 40 \<and> t_end t < 80))"
proof -
  have g: "rng_ok (random (env0 (\<lambda>n. 1 / 16)))" using rng_ok_const by (simp add: env0_def)
  from setText_task_ranges [OF g, of "\<lambda>m. m" "js ''xyz''" "TextScramble_new (js ''AB'')"]
  obtain p e' ts' where s: "setText (\<lambda>m. m) (Str (js ''xyz'')) (env0 (\<lambda>n. 1 / 16), TextScramble_new (js ''AB''))
                 = Inr (p, e', ts')"
    and r: "\<forall>t\<in>set (queue ts'). 0 \<le> t_start t \<and> t_start t < 40
            \<and> t_start t \<le> t_end t \<and> t_end t < t_start t + 40 \<and> t_end t < 80" by blast
  have "queue ts' \<noteq> []" using s by (auto simp: evaluate)
  with g s r show ?thesis by blast
qed

text \<open>
  C6. Within a session, once the task of position \<open>i\<close> has \<open>end \<le> frame\<close> at an update,
  that update appends its \<open>to\<close> character for the position, and so does the update of
  every later frame of the session: after any number of further frame callbacks the frame
  counter has not decreased, the position still has \<open>end \<le> frame\<close>, and the piece for
  it is the same \<open>to\<close>. What an update renders is the concatenation of its pieces.
\<close>

theorem frozen_position_stays_frozen:
  assumes i: "i < length (queue ts)"
    and fz: "t_end (queue ts ! i) \<le> frame ts"
    and u: "update (e, ts) = Inr s1"
    and r: "srun tc (replicate k Frame) s1 = Inr (e', ts')"
  shows "update_pieces (frame ts) (queue ts) (random e) ! i = t_to (queue ts ! i)
     \<and> el (snd s1) = concat (update_pieces (frame ts) (queue ts) (random e))
     \<and> frame ts \<le> frame ts'
     \<and> i < length (queue ts')
     \<and> t_end (queue ts' ! i) \<le> frame ts'
     \<and> update_pieces (frame ts') (queue ts') (random e') ! i = t_to (queue ts ! i)"
proof -
  obtain e1 ts1 where s1: "s1 = (e1, ts1)" by (cases s1) auto
  note a = update_result [OF u [unfolded s1]]
  note b = frames_static [OF r [unfolded s1]]
  have f1: "frame ts \<le> frame ts1" using a(12,13) by (cases "all_frozen ts") auto
  have len: "length (queue ts') = length (queue ts)"
    using a(5) b by (metis length_map)
  have i': "i < length (queue ts')" using i len by simp
  have "t_end (queue ts' ! i) = map t_end (queue ts') ! i" using i' by simp
  also have "\<dots> = map t_end (queue ts) ! i" using a(4) b by simp
  also have "\<dots> = t_end (queue ts ! i)" using i by simp
  finally have e_eq: "t_end (queue ts' ! i) = t_end (queue ts ! i)" .
  have "t_to (queue ts' ! i) = map t_to (queue ts') ! i" using i' by simp
  also have "\<dots> = map t_to (queue ts) ! i" using a(2) b by simp
  also have "\<dots> = t_to (queue ts ! i)" using i by simp
  finally have t_eq: "t_to (queue ts' ! i) = t_to (queue ts ! i)" .
  have mono: "frame ts \<le> frame ts'" using f1 b by simp
  have fz': "t_end (queue ts' ! i) \<le> frame ts'" using e_eq fz mono by simp
  from update_pieces_frozen [OF i fz] update_pieces_frozen [OF i' fz'] a(6) s1 mono i' fz' t_eq
  show ?thesis by simp
qed

theorem frozen_position_stays_frozen_witness:
  "\<exists>s1 e' ts'.
      (0::nat) < length (queue (TextScramble_new []\<lparr>queue := [\<lparr>t_from = js ''a'', t_to = js ''A'', t_start = 0, t_end = 0, t_char = None\<rparr>,
                                 \<lparr>t_from = js ''b'', t_to = js ''B'', t_start = 2, t_end = 4, t_char = None\<rparr>],
                       resolve := Some 0\<rparr>))
    \<and> update (env0 (\<lambda>n. 1 / 16),
               TextScramble_new []\<lparr>queue := [\<lparr>t_from = js ''a'', t_to = js ''A'', t_start = 0, t_end = 0, t_char = None\<rparr>,
                                 \<lparr>t_from = js ''b'', t_to = js ''B'', t_start = 2, t_end = 4, t_char = None\<rparr>],
                       resolve := Some 0\<rparr>) = Inr s1
    \<and> srun (\<lambda>m. m) (replicate 3 Frame) s1 = Inr (e', ts')
    \<and> frame ts' = 4
    \<and> update_pieces (frame ts') (queue ts') (random e') ! 0 = js ''A''"
proof -
  let ?ts = "TextScramble_new []\<lparr>queue := [\<lparr>t_from = js ''a'', t_to = js ''A'', t_start = 0, t_end = 0, t_char = None\<rparr>,
                                 \<lparr>t_from = js ''b'', t_to = js ''B'', t_start = 2, t_end = 4, t_char = None\<rparr>],
                       resolve := Some 0\<rparr>"
  let ?e = "env0 (\<lambda>n. 1 / 16)"
  obtain e1 ts1 where u: "update (?e, ?ts) = Inr (e1, ts1)"
    using update_succeeds [of ?ts 0 ?e] by (auto simp: TextScramble_new_def)
  have "\<exists>e' ts'. srun (\<lambda>m. m) (replicate 3 Frame) (e1, ts1) = Inr (e', ts') \<and> frame ts' = 4"
    using u by (auto simp: evaluate numeral_3_eq_3)
  then obtain e' ts' where r: "srun (\<lambda>m. m) (replicate 3 Frame) (e1, ts1) = Inr (e', ts')"
    and f: "frame ts' = 4" by blast
  have i: "(0::nat) < length (queue ?ts)" by (simp add: TextScramble_new_def)
  have fz: "t_end (queue ?ts ! 0) \<le> frame ?ts" by (simp add: TextScramble_new_def)
  from frozen_position_stays_frozen [OF i fz u r] have
    "update_pieces (frame ts') (queue ts') (random e') ! 0 = js ''A''"
    by (simp add: TextScramble_new_def)
  with u r f i show ?thesis by blast
qed

text \<open>
  C8. In every update that runs (the one \<^verbatim>\<open>setText\<close> makes itself, in the state
  \<open>before_update\<close>, and the one of every later frame callback), with \<^verbatim>\<open>Math.random()\<close>
  giving doubles in \<open>[0, 1)\<close>: a position with \<open>start \<le> frame < end\<close> appends one code
  unit of \<open>chars\<close>, taken at an index within bounds (the floor of the rounded double
  product with 18 is below 18), between the opening and the closing tag of
  the styling span, and a position with \<open>frame < start\<close> appends its \<open>from\<close> unchanged.
  There is one piece a position, and the markup the update writes is their concatenation.
\<close>

theorem update_emits_glyph_or_from:
  assumes g: "rng_ok g"
    and r: "srun tc evs (env0 g, TextScramble_new m) = Inr s"
    and st: "(e, ts) = s \<or> (e, ts) = before_update tc x s"
    and i: "i < length (queue ts)"
  shows "(t_start (queue ts ! i) \<le> frame ts \<and> frame ts < t_end (queue ts ! i) \<longrightarrow>
            (\<exists>k<length chars. update_pieces (frame ts) (queue ts) (random e) ! i
                = js ''<span class=\"scramble-char\">'' @ [chars ! k] @ js ''</span>''))
       \<and> (frame ts < t_start (queue ts ! i) \<longrightarrow>
            update_pieces (frame ts) (queue ts) (random e) ! i = t_from (queue ts ! i))
       \<and> length (update_pieces (frame ts) (queue ts) (random e)) = length (queue ts)
       \<and> (\<forall>e' ts'. update (e, ts) = Inr (e', ts') \<longrightarrow>
            el ts' = concat (update_pieces (frame ts) (queue ts) (random e)))"
proof -
  have link: "\<forall>e' ts'. update (e, ts) = Inr (e', ts') \<longrightarrow>
            el ts' = concat (update_pieces (frame ts) (queue ts) (random e))"
    using update_result(6) by blast
  from reachable_inv [OF g, of tc evs m] r have q: "qinv s" by auto
  have "qinv (e, ts)"
  proof (cases "(e, ts) = s")
    case True
    with q show ?thesis by simp
  next
    case False
    with st have b: "(e, ts) = before_update tc x s" by simp
    obtain e0 ts0 where s: "s = (e0, ts0)" by (cases s) auto
    from q s have "rng_ok (random e0)" by (simp add: qinv_def)
    from before_update_qinv [OF this, of tc x ts0] b s show ?thesis by simp
  qed
  then have "rng_ok (random e)" and "\<forall>t\<in>set (queue ts). task_ok t" by (simp_all add: qinv_def)
  from update_pieces_phase [OF this i, of "frame ts"] link show ?thesis
    by (simp add: scramble_span_def update_pieces_length)
qed

theorem update_emits_glyph_or_from_witness:
  "rng_ok (\<lambda>n. 1 / 16)
   \<and> (\<exists>e ts. srun (\<lambda>m. m) [SetText (js ''A''), Frame, Frame] (env0 (\<lambda>n. 1 / 16), TextScramble_new (js ''xy''))
                = Inr (e, ts)
        \<and> 1 < length (queue ts)
        \<and> t_start (queue ts ! 1) \<le> frame ts \<and> frame ts < t_end (queue ts ! 1)
        \<and> (\<exists>k<length chars. update_pieces (frame ts) (queue ts) (random e) ! 1
                = js ''<span class=\"scramble-char\">'' @ [chars ! k] @ js ''</span>''))"
proof -
  obtain e ts where r: "srun (\<lambda>m. m) [SetText (js ''A''), Frame, Frame]
      (env0 (\<lambda>n. 1 / 16), TextScramble_new (js ''xy'')) = Inr (e, ts)"
    using reachable_sinv [of "\<lambda>m. m" "[SetText (js ''A''), Frame, Frame]" "\<lambda>n. 1 / 16" "js ''xy''"]
    by auto
  have h: "1 < length (queue ts) \<and> t_start (queue ts ! 1) \<le> frame ts \<and> frame ts < t_end (queue ts ! 1)"
    using r by (auto simp: evaluate)
  from update_emits_glyph_or_from [OF rng_ok_const r _ conjunct1 [OF h], of e] h
  have "\<exists>k<length chars. update_pieces (frame ts) (queue ts) (random e) ! 1
                = js ''<span class=\"scramble-char\">'' @ [chars ! k] @ js ''</span>''"
    by simp
  with rng_ok_const r h show ?thesis by blast
qed

text \<open>
  C1, as stated, fails: a call of \<^verbatim>\<open>setText\<close> whose session is superseded by a later
  call gets a promise that is never fulfilled. Here the first call returns promise 0; a
  second call follows at once; when the second session has finished and nothing is
  scheduled any more, promise 0 has been resolved zero times.
\<close>

theorem superseded_promise_counterexample:
  "(case setText (\<lambda>m. m) (Str (js ''A'')) (env0 (\<lambda>n. 1 / 16), TextScramble_new []) of
      Inl err \<Rightarrow> False
    | Inr (p, s1) \<Rightarrow>
        p = 0 \<and>
        (case srun (\<lambda>m. m) [SetText (js ''B''), Frame, Frame, Frame, Frame, Frame] s1 of
           Inl err \<Rightarrow> False
         | Inr (e, ts) \<Rightarrow> count_list (resolved e) p = 0 \<and> resolved e = [1] \<and> raf_pending e = []
              \<and> el ts = js ''B''))"
  by (simp add: evaluate)

text \<open>
  C1, amended. For every call of \<^verbatim>\<open>setText\<close> on a scrambler reached from a fresh one,
  with \<^verbatim>\<open>Math.random()\<close> giving doubles in \<open>[0, 1)\<close>: the call returns a promise that is resolved at
  most once, whatever happens later; while only frame callbacks follow (the session is not
  superseded), the promise is resolved exactly when no frame is scheduled any more, and
  then every task has \<open>end \<le> frame\<close>; after 78 frame callbacks or more it has been
  resolved exactly once and no frame is scheduled. Any \<^verbatim>\<open>update\<close> calls the resolve
  function precisely when every task has \<open>end \<le> frame\<close>, and then schedules no frame;
  otherwise it schedules one frame and resolves nothing.
\<close>

theorem completion_notification:
  assumes g: "rng_ok g" and r: "srun tc evs (env0 g, TextScramble_new m) = Inr (e, ts)"
  shows "\<exists>p e1 ts1. setText tc (Str x) (e, ts) = Inr (p, e1, ts1)
     \<and> (\<forall>evs' e2 ts2. srun tc evs' (e1, ts1) = Inr (e2, ts2) \<longrightarrow> count_list (resolved e2) p \<le> 1)
     \<and> (\<forall>k e2 ts2. srun tc (replicate k Frame) (e1, ts1) = Inr (e2, ts2) \<longrightarrow>
           (count_list (resolved e2) p = 1 \<longleftrightarrow> raf_pending e2 = [])
         \<and> (count_list (resolved e2) p = 1 \<longrightarrow> (\<forall>t\<in>set (queue ts2). t_end t \<le> frame ts2)))
     \<and> (\<forall>k\<ge>78. \<exists>e2 ts2. srun tc (replicate k Frame) (e1, ts1) = Inr (e2, ts2)
           \<and> count_list (resolved e2) p = 1 \<and> raf_pending e2 = [])
     \<and> (\<forall>e0 ts0 e' ts'. update (e0, ts0) = Inr (e', ts') \<longrightarrow>
           (if \<forall>t\<in>set (queue ts0). t_end t \<le> frame ts0
            then resolved e' = resolved e0 @ [the (resolve ts0)] \<and> raf_pending e' = raf_pending e0
            else resolved e' = resolved e0 \<and> raf_pending e' = raf_pending e0 @ [raf_count e0]))"
proof -
  from reachable_inv [OF g, of tc evs m] r have i: "sinv (e, ts)" and q: "qinv (e, ts)" by auto
  from q have ge: "rng_ok (random e)" by (simp add: qinv_def)
  from setText_effect [OF i, of tc x] ge obtain e1 ts1
    where s: "setText tc (Str x) (e, ts) = Inr (promises e, e1, ts1)" and i1: "sinv (e1, ts1)"
      and p1: "resolve ts1 = Some (promises e)"
      and f1: "frame ts1 = (if raf_pending e1 = [] then 0 else 1)"
      and q1: "qinv (e1, ts1)" by blast
  let ?p = "promises e"
  have a: "\<forall>evs' e2 ts2. srun tc evs' (e1, ts1) = Inr (e2, ts2) \<longrightarrow> count_list (resolved e2) ?p \<le> 1"
  proof (intro allI impI)
    fix evs' e2 ts2
    assume "srun tc evs' (e1, ts1) = Inr (e2, ts2)"
    from srun_sinv [OF i1 this] have "distinct (resolved e2)" by (simp add: sinv_def)
    then show "count_list (resolved e2) ?p \<le> 1" by (simp add: distinct_count)
  qed
  have b: "\<forall>k e2 ts2. srun tc (replicate k Frame) (e1, ts1) = Inr (e2, ts2) \<longrightarrow>
           (count_list (resolved e2) ?p = 1 \<longleftrightarrow> raf_pending e2 = [])
         \<and> (count_list (resolved e2) ?p = 1 \<longrightarrow> (\<forall>t\<in>set (queue ts2). t_end t \<le> frame ts2))"
  proof (intro allI impI)
    fix k e2 ts2
    assume rr: "srun tc (replicate k Frame) (e1, ts1) = Inr (e2, ts2)"
    from srun_sinv [OF i1 rr] have i2: "sinv (e2, ts2)" .
    from frames_static [OF rr] p1 have p2: "resolve ts2 = Some ?p" by simp
    from i2 have d: "distinct (resolved e2)" by (simp add: sinv_def)
    have c: "count_list (resolved e2) ?p = 1 \<longleftrightarrow> ?p \<in> set (resolved e2)"
      using d by (simp add: distinct_count)
    have "?p \<in> set (resolved e2) \<longleftrightarrow> raf_pending e2 = []" using i2 p2 by (auto simp: sinv_def)
    moreover have "raf_pending e2 = [] \<longrightarrow> all_frozen ts2" using i2 p2 by (auto simp: sinv_def)
    ultimately show "(count_list (resolved e2) ?p = 1 \<longleftrightarrow> raf_pending e2 = [])
         \<and> (count_list (resolved e2) ?p = 1 \<longrightarrow> (\<forall>t\<in>set (queue ts2). t_end t \<le> frame ts2))"
      using c by (simp add: all_frozen_def)
  qed
  have c: "\<forall>k\<ge>78. \<exists>e2 ts2. srun tc (replicate k Frame) (e1, ts1) = Inr (e2, ts2)
           \<and> count_list (resolved e2) ?p = 1 \<and> raf_pending e2 = []"
  proof (intro allI impI)
    fix k :: nat
    assume k: "78 \<le> k"
    have bd: "\<forall>t\<in>set (queue ts1). t_end t \<le> 78" using q1 by (simp add: qinv_def task_ok_end)
    have fr: "raf_pending e1 \<noteq> [] \<longrightarrow> 1 \<le> frame ts1" using f1 by simp
    from frames_finish [OF i1 bd fr p1 k, of tc] obtain e2 ts2
      where rr: "srun tc (replicate k Frame) (e1, ts1) = Inr (e2, ts2)" and pe: "raf_pending e2 = []"
      by blast
    from b rr pe have "count_list (resolved e2) ?p = 1" by blast
    with rr pe show "\<exists>e2 ts2. srun tc (replicate k Frame) (e1, ts1) = Inr (e2, ts2)
           \<and> count_list (resolved e2) ?p = 1 \<and> raf_pending e2 = []" by blast
  qed
  have d: "\<forall>e0 ts0 e' ts'. update (e0, ts0) = Inr (e', ts') \<longrightarrow>
           (if \<forall>t\<in>set (queue ts0). t_end t \<le> frame ts0
            then resolved e' = resolved e0 @ [the (resolve ts0)] \<and> raf_pending e' = raf_pending e0
            else resolved e' = resolved e0 \<and> raf_pending e' = raf_pending e0 @ [raf_count e0])"
  proof (intro allI impI)
    fix e0 ts0 e' ts'
    assume u: "update (e0, ts0) = Inr (e', ts')"
    note f = update_result [OF u]
    show "if \<forall>t\<in>set (queue ts0). t_end t \<le> frame ts0
            then resolved e' = resolved e0 @ [the (resolve ts0)] \<and> raf_pending e' = raf_pending e0
            else resolved e' = resolved e0 \<and> raf_pending e' = raf_pending e0 @ [raf_count e0]"
      using f(12,13) by (cases "all_frozen ts0") (auto simp: all_frozen_def)
  qed
  from s a b c d show ?thesis by blast
qed

theorem completion_notification_witness:
  "rng_ok (\<lambda>n. 1 / 16)
   \<and> srun (\<lambda>m. m) [SetText (js ''A''), Frame] (env0 (\<lambda>n. 1 / 16), TextScramble_new (js ''xy''))
       \<noteq> Inl TypeError
   \<and> (\<exists>e ts p e1 ts1 e2 ts2.
        srun (\<lambda>m. m) [SetText (js ''A''), Frame] (env0 (\<lambda>n. 1 / 16), TextScramble_new (js ''xy''))
          = Inr (e, ts)
      \<and> setText (\<lambda>m. m) (Str (js ''B'')) (e, ts) = Inr (p, e1, ts1)
      \<and> srun (\<lambda>m. m) (replicate 78 Frame) (e1, ts1) = Inr (e2, ts2)
      \<and> count_list (resolved e2) p = 1 \<and> raf_pending e2 = [] \<and> queue ts2 \<noteq> []
      \<and> (\<forall>t\<in>set (queue ts2). t_end t \<le> frame ts2))"
proof -
  let ?s0 = "(env0 (\<lambda>n. 1 / 16), TextScramble_new (js ''xy''))"
  obtain e ts where r: "srun (\<lambda>m. m) [SetText (js ''A''), Frame] ?s0 = Inr (e, ts)"
    using reachable_sinv [of "\<lambda>m. m" "[SetText (js ''A''), Frame]" "\<lambda>n. 1 / 16" "js ''xy''"] by auto
  from completion_notification [OF rng_ok_const r, of "js ''B''"] obtain p e1 ts1
    where s: "setText (\<lambda>m. m) (Str (js ''B'')) (e, ts) = Inr (p, e1, ts1)"
      and b: "\<forall>k e2 ts2. srun (\<lambda>m. m) (replicate k Frame) (e1, ts1) = Inr (e2, ts2) \<longrightarrow>
           (count_list (resolved e2) p = 1 \<longleftrightarrow> raf_pending e2 = [])
         \<and> (count_list (resolved e2) p = 1 \<longrightarrow> (\<forall>t\<in>set (queue ts2). t_end t \<le> frame ts2))"
      and c: "\<forall>k\<ge>78. \<exists>e2 ts2. srun (\<lambda>m. m) (replicate k Frame) (e1, ts1) = Inr (e2, ts2)
           \<and> count_list (resolved e2) p = 1 \<and> raf_pending e2 = []"
    by blast
  from c obtain e2 ts2 where rr: "srun (\<lambda>m. m) (replicate 78 Frame) (e1, ts1) = Inr (e2, ts2)"
    and d: "count_list (resolved e2) p = 1" "raf_pending e2 = []" by blast
  from b rr d have fz: "\<forall>t\<in>set (queue ts2). t_end t \<le> frame ts2" by blast
  have "queue ts1 \<noteq> []" using r s by (auto simp: evaluate)
  with frames_static [OF rr] have ne: "queue ts2 \<noteq> []" by (metis map_is_Nil_conv)
  have "srun (\<lambda>m. m) [SetText (js ''A''), Frame] ?s0 \<noteq> Inl TypeError" using r by simp
  with rng_ok_const r s rr d fz ne show ?thesis by blast
qed

text \<open>
  C3. On a scrambler reached from a fresh one, let a session be in flight: a frame
  callback is scheduled. Then it is the only one scheduled, it is the one \<open>frameRequest\<close>
  names, and the promise \<open>q\<close> of the session is unresolved. A call of \<^verbatim>\<open>setText\<close> now
  returns with a new promise; the prior callback is no longer scheduled and at most one
  callback is; the frame counter was reset, so that it is 0 when the new session finished at
  once and 1 when its frame 0 was rendered and frame 1 is scheduled; whatever happens
  later, \<open>q\<close> is never resolved and never more than one callback is scheduled; and the
  \<open>from\<close> of every task of the new session is the character at its position of the text
  that was displayed at the call, empty past its end.
\<close>

theorem setText_supersedes:
  assumes r: "srun tc evs (env0 g, TextScramble_new m) = Inr (e, ts)"
    and fl: "raf_pending e \<noteq> []"
  shows "\<exists>q h e1 ts1.
       resolve ts = Some q \<and> q \<notin> set (resolved e) \<and> raf_pending e = [h] \<and> frameRequest ts = Some h
     \<and> setText tc (Str x) (e, ts) = Inr (promises e, e1, ts1)
     \<and> h \<notin> set (raf_pending e1) \<and> length (raf_pending e1) \<le> 1
     \<and> frame ts1 = (if raf_pending e1 = [] then 0 else 1)
     \<and> resolve ts1 = Some (promises e) \<and> promises e \<noteq> q
     \<and> (\<forall>evs' e2 ts2. srun tc evs' (e1, ts1) = Inr (e2, ts2) \<longrightarrow>
            q \<notin> set (resolved e2) \<and> length (raf_pending e2) \<le> 1)
     \<and> length (queue ts1) = max (length (tc (el ts))) (length x)
     \<and> (\<forall>i<length (queue ts1).
            t_from (queue ts1 ! i) = (if i < length (tc (el ts)) then [tc (el ts) ! i] else []))"
proof -
  from reachable_sinv [of tc evs g m] r have i: "sinv (e, ts)" by auto
  from i fl obtain q h where q: "resolve ts = Some q" "q \<notin> set (resolved e)"
    and h: "raf_pending e = [h]" "frameRequest ts = Some h"
    by (auto simp: sinv_def)
  from i q h have lt: "q < promises e" "h < raf_count e" by (auto simp: sinv_def)
  from setText_effect [OF i, of tc x] obtain e1 ts1
    where s: "setText tc (Str x) (e, ts) = Inr (promises e, e1, ts1)" and i1: "sinv (e1, ts1)"
      and p1: "resolve ts1 = Some (promises e)"
      and f1: "frame ts1 = (if raf_pending e1 = [] then 0 else 1)"
      and pe: "raf_pending e1 = [] \<or> raf_pending e1 = [raf_count e]"
      and pr: "promises e1 = Suc (promises e)"
      and rs: "set (resolved e1) \<subseteq> insert (promises e) (set (resolved e))" by blast
  have hn: "h \<notin> set (raf_pending e1)" using pe lt(2) by auto
  have l1: "length (raf_pending e1) \<le> 1" using pe by auto
  have "superseded q (e1, ts1)" using q lt(1) p1 pr rs by (auto simp: superseded_def)
  have fut: "\<forall>evs' e2 ts2. srun tc evs' (e1, ts1) = Inr (e2, ts2) \<longrightarrow>
            q \<notin> set (resolved e2) \<and> length (raf_pending e2) \<le> 1"
  proof (intro allI impI)
    fix evs' e2 ts2
    assume rr: "srun tc evs' (e1, ts1) = Inr (e2, ts2)"
    from srun_superseded [OF \<open>superseded q (e1, ts1)\<close> rr] have "q \<notin> set (resolved e2)"
      by (simp add: superseded_def)
    moreover from srun_sinv [OF i1 rr] have "length (raf_pending e2) \<le> 1"
      by (auto simp: sinv_def)
    ultimately show "q \<notin> set (resolved e2) \<and> length (raf_pending e2) \<le> 1" by simp
  qed
  from setText_queue [of tc x e ts] s
  have fr: "length (queue ts1) = max (length (tc (el ts))) (length x)
     \<and> (\<forall>i<length (queue ts1).
            t_from (queue ts1 ! i) = (if i < length (tc (el ts)) then [tc (el ts) ! i] else []))"
    by auto
  from q h s hn l1 f1 p1 lt(1) fut fr show ?thesis by blast
qed

theorem setText_supersedes_witness:
  "\<exists>e ts q h e1 ts1 e2 ts2.
       srun (\<lambda>m. m) [SetText (js ''A''), Frame] (env0 (\<lambda>n. 1 / 16), TextScramble_new (js ''xy''))
         = Inr (e, ts)
     \<and> raf_pending e \<noteq> []
     \<and> resolve ts = Some q \<and> raf_pending e = [h]
     \<and> setText (\<lambda>m. m) (Str (js ''B'')) (e, ts) = Inr (promises e, e1, ts1)
     \<and> h \<notin> set (raf_pending e1)
     \<and> srun (\<lambda>m. m) (replicate 5 Frame) (e1, ts1) = Inr (e2, ts2)
     \<and> raf_pending e2 = [] \<and> q \<notin> set (resolved e2)
     \<and> queue ts1 \<noteq> []"
proof -
  let ?s0 = "(env0 (\<lambda>n. 1 / 16), TextScramble_new (js ''xy''))"
  obtain e ts where r: "srun (\<lambda>m. m) [SetText (js ''A''), Frame] ?s0 = Inr (e, ts)"
    using reachable_sinv [of "\<lambda>m. m" "[SetText (js ''A''), Frame]" "\<lambda>n. 1 / 16" "js ''xy''"] by auto
  have fl: "raf_pending e \<noteq> []" using r by (auto simp: evaluate)
  from setText_supersedes [OF r fl, of "js ''B''"] obtain q h e1 ts1
    where a: "resolve ts = Some q" "raf_pending e = [h]"
      "setText (\<lambda>m. m) (Str (js ''B'')) (e, ts) = Inr (promises e, e1, ts1)"
      "h \<notin> set (raf_pending e1)"
      and fut: "\<forall>evs' e2 ts2. srun (\<lambda>m. m) evs' (e1, ts1) = Inr (e2, ts2) \<longrightarrow>
            q \<notin> set (resolved e2) \<and> length (raf_pending e2) \<le> 1"
    by blast
  have "\<exists>e2 ts2. srun (\<lambda>m. m) (replicate 5 Frame) (e1, ts1) = Inr (e2, ts2) \<and> raf_pending e2 = []"
    using r a(3) by (auto simp: evaluate eval_nat_numeral)
  then obtain e2 ts2 where rr: "srun (\<lambda>m. m) (replicate 5 Frame) (e1, ts1) = Inr (e2, ts2)"
    and pe: "raf_pending e2 = []" by blast
  from fut rr have nq: "q \<notin> set (resolved e2)" by blast
  have ne: "queue ts1 \<noteq> []" using r a(3) by (auto simp: evaluate)
  from r fl a rr pe nq ne show ?thesis by blast
qed

text \<open>
  C5, as stated, fails for a \<open>newText\<close> that holds markup: the characters are written
  to \<^verbatim>\<open>innerHTML\<close> unescaped, so the text the element shows after completion is the text
  of that markup. With \<open>text_of_markup\<close> for \<^verbatim>\<open>textContent\<close>, \<^verbatim>\<open>setText('<b>x')\<close> on an
  empty element completes with the markup \<^verbatim>\<open><b>x\<close> and the displayed text \<open>x\<close>.
\<close>

theorem markup_in_newText_counterexample:
  "(case setText text_of_markup (Str (js ''<b>x'')) (env0 (\<lambda>n. 1 / 16), TextScramble_new []) of
      Inl err \<Rightarrow> False
    | Inr (p, s1) \<Rightarrow>
        (case srun text_of_markup [Frame, Frame, Frame, Frame] s1 of
           Inl err \<Rightarrow> False
         | Inr (e, ts) \<Rightarrow> p \<in> set (resolved e) \<and> raf_pending e = []
              \<and> el ts = js ''<b>x'' \<and> text_of_markup (el ts) = js ''x''
              \<and> text_of_markup (el ts) \<noteq> js ''<b>x''))"
  by (simp add: evaluate text_of_markup_def tag_start_def)

text \<open>
  C5, amended. On a scrambler reached from a fresh one, with \<^verbatim>\<open>Math.random()\<close> giving
  doubles in \<open>[0, 1)\<close>, \<^verbatim>\<open>setText(newText)\<close> returns; while only frame callbacks follow,
  whenever the promise is resolved the markup written to the element is \<open>newText\<close>, so
  that the text it displays is the text of \<open>newText\<close> read as markup; and after 78 frame
  callbacks or more the promise is resolved and the markup is \<open>newText\<close>. In particular,
  with displayed text \<open>AB\<close> and \<open>newText\<close> empty the session has two tasks, both with an
  empty \<open>to\<close>, and the markup after completion is empty.
\<close>

theorem completed_session_writes_newText:
  assumes g: "rng_ok g" and r: "srun tc evs (env0 g, TextScramble_new m) = Inr (e, ts)"
  shows "\<exists>p e1 ts1. setText tc (Str newText) (e, ts) = Inr (p, e1, ts1)
     \<and> (\<forall>k e2 ts2. srun tc (replicate k Frame) (e1, ts1) = Inr (e2, ts2) \<and> p \<in> set (resolved e2)
            \<longrightarrow> el ts2 = newText \<and> tc (el ts2) = tc newText)
     \<and> (\<forall>k\<ge>78. \<exists>e2 ts2. srun tc (replicate k Frame) (e1, ts1) = Inr (e2, ts2)
            \<and> p \<in> set (resolved e2) \<and> el ts2 = newText \<and> tc (el ts2) = tc newText)
     \<and> (tc (el ts) = js ''AB'' \<and> newText = [] \<longrightarrow>
            length (queue ts1) = 2 \<and> (\<forall>t\<in>set (queue ts1). t_to t = [])
            \<and> (\<forall>k\<ge>78. \<exists>e2 ts2. srun tc (replicate k Frame) (e1, ts1) = Inr (e2, ts2)
                  \<and> p \<in> set (resolved e2) \<and> el ts2 = []))"
proof -
  from reachable_inv [OF g, of tc evs m] r have i: "sinv (e, ts)" and q: "qinv (e, ts)" by auto
  from q have ge: "rng_ok (random e)" by (simp add: qinv_def)
  from setText_effect [OF i, of tc newText] ge obtain e1 ts1
    where s: "setText tc (Str newText) (e, ts) = Inr (promises e, e1, ts1)" and i1: "sinv (e1, ts1)"
      and p1: "resolve ts1 = Some (promises e)"
      and f1: "frame ts1 = (if raf_pending e1 = [] then 0 else 1)"
      and c1: "concat (map t_to (queue ts1)) = newText"
      and q1: "qinv (e1, ts1)" by blast
  let ?p = "promises e"
  have a: "\<forall>k e2 ts2. srun tc (replicate k Frame) (e1, ts1) = Inr (e2, ts2) \<and> ?p \<in> set (resolved e2)
            \<longrightarrow> el ts2 = newText \<and> tc (el ts2) = tc newText"
  proof (intro allI impI)
    fix k e2 ts2
    assume h: "srun tc (replicate k Frame) (e1, ts1) = Inr (e2, ts2) \<and> ?p \<in> set (resolved e2)"
    then have rr: "srun tc (replicate k Frame) (e1, ts1) = Inr (e2, ts2)" by simp
    from srun_sinv [OF i1 rr] have i2: "sinv (e2, ts2)" .
    from frames_static [OF rr] p1 have p2: "resolve ts2 = Some ?p"
      and t2: "map t_to (queue ts2) = map t_to (queue ts1)" by simp_all
    have "raf_pending e2 = []" using i2 p2 h by (auto simp: sinv_def)
    with i2 p2 have "el ts2 = concat (map t_to (queue ts2))" by (simp add: sinv_def)
    with t2 c1 show "el ts2 = newText \<and> tc (el ts2) = tc newText" by simp
  qed
  have b: "\<forall>k\<ge>78. \<exists>e2 ts2. srun tc (replicate k Frame) (e1, ts1) = Inr (e2, ts2)
            \<and> ?p \<in> set (resolved e2) \<and> el ts2 = newText \<and> tc (el ts2) = tc newText"
  proof (intro allI impI)
    fix k :: nat
    assume k: "78 \<le> k"
    have bd: "\<forall>t\<in>set (queue ts1). t_end t \<le> 78" using q1 by (simp add: qinv_def task_ok_end)
    have fr: "raf_pending e1 \<noteq> [] \<longrightarrow> 1 \<le> frame ts1" using f1 by simp
    from frames_finish [OF i1 bd fr p1 k, of tc] obtain e2 ts2
      where rr: "srun tc (replicate k Frame) (e1, ts1) = Inr (e2, ts2)" and pe: "raf_pending e2 = []"
        and el: "el ts2 = concat (map t_to (queue ts1))" by blast
    from srun_sinv [OF i1 rr] have i2: "sinv (e2, ts2)" .
    from frames_static [OF rr] p1 have p2: "resolve ts2 = Some ?p" by simp
    from i2 p2 pe have "?p \<in> set (resolved e2)" by (simp add: sinv_def)
    with rr el c1 show "\<exists>e2 ts2. srun tc (replicate k Frame) (e1, ts1) = Inr (e2, ts2)
            \<and> ?p \<in> set (resolved e2) \<and> el ts2 = newText \<and> tc (el ts2) = tc newText" by auto
  qed
  have c: "tc (el ts) = js ''AB'' \<and> newText = [] \<longrightarrow>
            length (queue ts1) = 2 \<and> (\<forall>t\<in>set (queue ts1). t_to t = [])
            \<and> (\<forall>k\<ge>78. \<exists>e2 ts2. srun tc (replicate k Frame) (e1, ts1) = Inr (e2, ts2)
                  \<and> ?p \<in> set (resolved e2) \<and> el ts2 = [])"
  proof
    assume h: "tc (el ts) = js ''AB'' \<and> newText = []"
    from setText_queue [of tc newText e ts] s
    have l: "length (queue ts1) = max (length (tc (el ts))) (length newText)"
      and n: "\<forall>i<length (queue ts1). t_to (queue ts1 ! i) = (if i < length newText then [newText ! i] else [])"
      by auto
    from l h have "length (queue ts1) = 2" by (simp add: js_def)
    moreover from n h have "\<forall>t\<in>set (queue ts1). t_to t = []" by (auto simp: in_set_conv_nth)
    moreover from b h have "\<forall>k\<ge>78. \<exists>e2 ts2. srun tc (replicate k Frame) (e1, ts1) = Inr (e2, ts2)
                  \<and> ?p \<in> set (resolved e2) \<and> el ts2 = []" by blast
    ultimately show "length (queue ts1) = 2 \<and> (\<forall>t\<in>set (queue ts1). t_to t = [])
            \<and> (\<forall>k\<ge>78. \<exists>e2 ts2. srun tc (replicate k Frame) (e1, ts1) = Inr (e2, ts2)
                  \<and> ?p \<in> set (resolved e2) \<and> el ts2 = [])" by simp
  qed
  from s a b c show ?thesis by blast
qed

theorem completed_session_writes_newText_witness:
  "rng_ok (\<lambda>n. 1 / 16)
   \<and> srun (\<lambda>m. m) [] (env0 (\<lambda>n. 1 / 16), TextScramble_new (js ''AB''))
       = Inr (env0 (\<lambda>n. 1 / 16), TextScramble_new (js ''AB''))
   \<and> el (TextScramble_new (js ''AB'')) = js ''AB''
   \<and> (\<exists>p e1 ts1 e2 ts2.
         setText (\<lambda>m. m) (Str []) (env0 (\<lambda>n. 1 / 16), TextScramble_new (js ''AB'')) = Inr (p, e1, ts1)
       \<and> length (queue ts1) = 2 \<and> map t_to (queue ts1) = [[], []]
       \<and> raf_pending e1 \<noteq> []
       \<and> srun (\<lambda>m. m) (replicate 78 Frame) (e1, ts1) = Inr (e2, ts2)
       \<and> p \<in> set (resolved e2) \<and> el ts2 = [])"
proof -
  let ?e = "env0 (\<lambda>n. 1 / 16)"
  let ?ts = "TextScramble_new (js ''AB'')"
  have r: "srun (\<lambda>m. m) [] (?e, ?ts) = Inr (?e, ?ts)" by simp
  have t: "el ?ts = js ''AB''" by (simp add: TextScramble_new_def)
  from completed_session_writes_newText [OF rng_ok_const r, of "[]"] t obtain p e1 ts1
    where s: "setText (\<lambda>m. m) (Str []) (?e, ?ts) = Inr (p, e1, ts1)"
      and b: "\<forall>k\<ge>78. \<exists>e2 ts2. srun (\<lambda>m. m) (replicate k Frame) (e1, ts1) = Inr (e2, ts2)
            \<and> p \<in> set (resolved e2) \<and> el ts2 = []"
      and c: "length (queue ts1) = 2"
    by auto
  from b obtain e2 ts2 where rr: "srun (\<lambda>m. m) (replicate 78 Frame) (e1, ts1) = Inr (e2, ts2)"
    and d: "p \<in> set (resolved e2)" "el ts2 = []" by blast
  have m: "map t_to (queue ts1) = [[], []] \<and> raf_pending e1 \<noteq> []" using s by (auto simp: evaluate)
  from s c m rr d have "\<exists>p e1 ts1 e2 ts2.
         setText (\<lambda>m. m) (Str []) (?e, ?ts) = Inr (p, e1, ts1)
       \<and> length (queue ts1) = 2 \<and> map t_to (queue ts1) = [[], []]
       \<and> raf_pending e1 \<noteq> []
       \<and> srun (\<lambda>m. m) (replicate 78 Frame) (e1, ts1) = Inr (e2, ts2)
       \<and> p \<in> set (resolved e2) \<and> el ts2 = []"
    by (intro exI [of _ p] exI [of _ e1] exI [of _ ts1] exI [of _ e2] exI [of _ ts2]) simp
  with rng_ok_const r t show ?thesis by (intro conjI)
qed

text \<open>
  C4. The code at the input of the claim: a rotator over the words \<open>A\<close>, \<open>B\<close> is
  constructed, and \<^verbatim>\<open>stop()\<close> is called while its first transition is in flight (a frame
  is scheduled, no timeout is). The call changes nothing. The transition then runs to its
  end and renders \<open>A\<close>, as the claim says; but its \<^verbatim>\<open>then\<close> callback is queued, it
  schedules a timeout after the call of \<^verbatim>\<open>stop()\<close>, and when that timeout runs a second
  transition, to \<open>B\<close>, begins: a second promise exists and a frame is scheduled again.
\<close>

theorem stop_in_flight_does_not_stop:
  "(case WordRotator_new (\<lambda>m. m) [] [js ''A'', js ''B''] None (env0 (\<lambda>n. 1 / 16)) of
      Inl err \<Rightarrow> False
    | Inr s0 \<Rightarrow>
        raf_pending (fst s0) \<noteq> [] \<and> timers (fst s0) = [] \<and> promises (fst s0) = 1
      \<and> rstep (\<lambda>m. m) Stop s0 = Inr s0
      \<and> (case rrun (\<lambda>m. m) [Stop, RFrame, RFrame, RFrame, RFrame] s0 of
            Inl err \<Rightarrow> False
          | Inr (e, r) \<Rightarrow> el (scrambler r) = js ''A'' \<and> resolved e = [0] \<and> raf_pending e = []
                \<and> microtasks e = [0] \<and> timers e = [])
      \<and> (case rrun (\<lambda>m. m) [Stop, RFrame, RFrame, RFrame, RFrame, Microtask] s0 of
            Inl err \<Rightarrow> False
          | Inr (e, r) \<Rightarrow> timers e = [0] \<and> timeoutId r = Some 0)
      \<and> (case rrun (\<lambda>m. m) [Stop, RFrame, RFrame, RFrame, RFrame, Microtask, Timeout] s0 of
            Inl err \<Rightarrow> False
          | Inr (e, r) \<Rightarrow> promises e = 2 \<and> map t_to (queue (scrambler r)) = [js ''B'']
                \<and> raf_pending e \<noteq> [] \<and> currentIndex r = 0))"
  by (simp add: evaluate)

text \<open>
  C9, as stated, fails on the class itself: constructing a \<^verbatim>\<open>WordRotator\<close> with an empty
  word list raises a TypeError (\<^verbatim>\<open>words[0]\<close> is \<^verbatim>\<open>undefined\<close>, and \<^verbatim>\<open>setText\<close> reads
  its \<^verbatim>\<open>length\<close>).
\<close>

theorem empty_words_constructor_counterexample:
  "WordRotator_new (\<lambda>m. m) (js ''Hello'') [] None (env0 (\<lambda>n. 1 / 16)) = Inl TypeError"
  by (simp add: evaluate)

text \<open>
  C9, amended. Started through \<^verbatim>\<open>initKineticText\<close>, an element whose word list is empty
  gets no rotation cycle: nothing is constructed, the environment is unchanged, no failure
  is raised; an element whose word list is not empty gets its rotator. The list is empty
  exactly when the element has no \<^verbatim>\<open>data-words\<close> attribute. The constructor itself, given
  an empty list, raises a TypeError.
\<close>

theorem empty_words_no_cycle:
  "(dataset_words d = [] \<longrightarrow> init_rotate tc element d parsed e = Inr (e, None))
   \<and> (dataset_words d \<noteq> [] \<longrightarrow> (\<exists>e' r. init_rotate tc element d parsed e = Inr (e', Some r)))
   \<and> (dataset_words d = [] \<longleftrightarrow> d = None)
   \<and> WordRotator_new tc element [] opt e = Inl TypeError"
proof -
  have a: "dataset_words d = [] \<longrightarrow> init_rotate tc element d parsed e = Inr (e, None)"
    by (simp add: init_rotate_def)
  have b: "dataset_words d \<noteq> [] \<longrightarrow> (\<exists>e' r. init_rotate tc element d parsed e = Inr (e', Some r))"
  proof
    assume ne: "dataset_words d \<noteq> []"
    let ?ws = "dataset_words d"
    have wa: "word_at ?ws 0 = Str (?ws ! 0)" using ne by (simp add: word_at_def)
    from setText_total [of tc "?ws ! 0" e "TextScramble_new element"] obtain e1 ts1
      where "setText tc (Str (?ws ! 0)) (e, TextScramble_new element) = Inr (promises e, e1, ts1)"
      by blast
    with wa ne show "\<exists>e' r. init_rotate tc element d parsed e = Inr (e', Some r)"
      by (simp add: init_rotate_def WordRotator_new_def WordRotator_start_def
          WordRotator_next_def Let_def)
  qed
  have sc: "split_comma s \<noteq> []" for s
    by (induction s) (auto split: list.splits)
  have c: "dataset_words d = [] \<longleftrightarrow> d = None"
    using sc by (cases d) (simp_all add: dataset_words_def)
  have d: "WordRotator_new tc element [] opt e = Inl TypeError"
    by (simp add: WordRotator_new_def WordRotator_start_def WordRotator_next_def word_at_def
        setText_def split: prod.splits)
  from a b c d show ?thesis by blast
qed

theorem empty_words_no_cycle_witness:
  "dataset_words None = []
   \<and> init_rotate (\<lambda>m. m) (js ''Hello'') None None (env0 (\<lambda>n. 1 / 16)) = Inr (env0 (\<lambda>n. 1 / 16), None)
   \<and> dataset_words (Some (js ''Design, Develop'')) \<noteq> []
   \<and> (\<exists>e' r. init_rotate (\<lambda>m. m) (js ''Hello'') (Some (js ''Design, Develop'')) None (env0 (\<lambda>n. 1 / 16))
         = Inr (e', Some r))"
proof -
  have a: "dataset_words None = []" by (simp add: dataset_words_def)
  have b: "dataset_words (Some (js ''Design, Develop'')) \<noteq> []" by (simp add: dataset_words_def js_def)
  from empty_words_no_cycle [of None "\<lambda>m. m" "js ''Hello''" None "env0 (\<lambda>n. 1 / 16)"] a
  have c: "init_rotate (\<lambda>m. m) (js ''Hello'') None None (env0 (\<lambda>n. 1 / 16)) = Inr (env0 (\<lambda>n. 1 / 16), None)"
    by blast
  from empty_words_no_cycle [of "Some (js ''Design, Develop'')" "\<lambda>m. m" "js ''Hello''" None "env0 (\<lambda>n. 1 / 16)"] b
  have d: "\<exists>e' r. init_rotate (\<lambda>m. m) (js ''Hello'') (Some (js ''Design, Develop'')) None (env0 (\<lambda>n. 1 / 16))
         = Inr (e', Some r)"
    by blast
  from a b c d show ?thesis by (intro conjI)
qed

text \<open>
  C10, as stated, fails in its timing: when the session finishes within \<^verbatim>\<open>setText\<close> (at
  frame 0), the promise is resolved before \<^verbatim>\<open>next()\<close> advances the index. With the words
  \<open>(empty)\<close>, \<open>B\<close> on an empty element, the call of \<^verbatim>\<open>setText\<close> that \<^verbatim>\<open>next()\<close> makes
  first returns with promise 0 resolved already; the index is advanced to 1 afterwards, and
  the \<^verbatim>\<open>then\<close> callback is queued, not yet run.
\<close>

theorem index_advance_after_resolve_counterexample:
  "(case setText (\<lambda>m. m) (word_at [[], js ''B''] 0) (env0 (\<lambda>n. 1 / 16), TextScramble_new []) of
      Inl err \<Rightarrow> False
    | Inr (p, e1, ts1) \<Rightarrow> p = 0 \<and> resolved e1 = [0] \<and> queue ts1 = [])
   \<and> (case WordRotator_new (\<lambda>m. m) [] [[], js ''B''] None (env0 (\<lambda>n. 1 / 16)) of
      Inl err \<Rightarrow> False
    | Inr (e, r) \<Rightarrow> currentIndex r = 1 \<and> resolved e = [0] \<and> microtasks e = [0] \<and> timers e = [])"
  by (simp add: evaluate)

text \<open>
  C10, amended. For every rotator constructed with a word list that is not empty, the
  constructor returns, having read \<open>words[0]\<close>, with \<open>0 \<le> currentIndex < length words\<close>;
  after any sequence of frame callbacks, \<^verbatim>\<open>then\<close> callbacks, timeouts and calls of
  \<^verbatim>\<open>stop()\<close> the index is still within the list, so \<open>words[currentIndex]\<close> is a string
  of the list; and a call of \<^verbatim>\<open>next()\<close> there passes \<open>words[currentIndex]\<close> to
  \<^verbatim>\<open>setText\<close> and advances the index by one modulo the length within the same call,
  before the \<^verbatim>\<open>then\<close> callback of the transition has run (it is waiting or queued, no
  timeout has been added) and, whenever the transition needs a further frame, before its
  promise is resolved.
\<close>

theorem rotator_index_invariant:
  assumes "ws \<noteq> []"
  shows "\<exists>e r. WordRotator_new tc m ws opt (env0 g) = Inr (e, r)
     \<and> words r = ws \<and> 0 \<le> currentIndex r \<and> currentIndex r < int (length ws)
     \<and> concat (map t_to (queue (scrambler r))) = ws ! 0
     \<and> currentIndex r = 1 mod int (length ws)
     \<and> (\<forall>evs. \<exists>e' r'. rrun tc evs (e, r) = Inr (e', r')
           \<and> words r' = ws \<and> 0 \<le> currentIndex r' \<and> currentIndex r' < int (length ws)
           \<and> word_at (words r') (currentIndex r') = Str (ws ! nat (currentIndex r'))
           \<and> (\<exists>p e1 ts1 e2 r2.
                  setText tc (Str (ws ! nat (currentIndex r'))) (e', scrambler r') = Inr (p, e1, ts1)
                \<and> WordRotator_next tc (e', r') = Inr (e2, r2)
                \<and> scrambler r2 = ts1 \<and> words r2 = ws
                \<and> currentIndex r2 = (currentIndex r' + 1) mod int (length ws)
                \<and> timeoutId r2 = timeoutId r' \<and> timers e2 = timers e'
                \<and> (p \<in> set (reactions e2) \<or> p \<in> set (microtasks e2))
                \<and> (raf_pending e2 \<noteq> [] \<longrightarrow> p \<notin> set (resolved e2))))"
proof -
  from new_rinv [OF assms, of tc m opt g] obtain e r
    where n: "WordRotator_new tc m ws opt (env0 g) = Inr (e, r)" and ri: "rinv (e, r)"
      and w: "words r = ws" and c: "currentIndex r = 1 mod int (length ws)"
      and t: "concat (map t_to (queue (scrambler r))) = ws ! 0" by blast
  have rg: "0 \<le> currentIndex r \<and> currentIndex r < int (length ws)" using ri w by (simp add: rinv_def)
  have fut: "\<forall>evs. \<exists>e' r'. rrun tc evs (e, r) = Inr (e', r')
           \<and> words r' = ws \<and> 0 \<le> currentIndex r' \<and> currentIndex r' < int (length ws)
           \<and> word_at (words r') (currentIndex r') = Str (ws ! nat (currentIndex r'))
           \<and> (\<exists>p e1 ts1 e2 r2.
                  setText tc (Str (ws ! nat (currentIndex r'))) (e', scrambler r') = Inr (p, e1, ts1)
                \<and> WordRotator_next tc (e', r') = Inr (e2, r2)
                \<and> scrambler r2 = ts1 \<and> words r2 = ws
                \<and> currentIndex r2 = (currentIndex r' + 1) mod int (length ws)
                \<and> timeoutId r2 = timeoutId r' \<and> timers e2 = timers e'
                \<and> (p \<in> set (reactions e2) \<or> p \<in> set (microtasks e2))
                \<and> (raf_pending e2 \<noteq> [] \<longrightarrow> p \<notin> set (resolved e2)))"
  proof
    fix evs
    from rrun_rinv [OF ri, of tc evs] w obtain e' r'
      where rr: "rrun tc evs (e, r) = Inr (e', r')" and ri': "rinv (e', r')" and w': "words r' = ws"
      by auto
    from ri' w' have rg': "0 \<le> currentIndex r'" "currentIndex r' < int (length ws)"
      by (simp_all add: rinv_def)
    then have wa: "word_at (words r') (currentIndex r') = Str (ws ! nat (currentIndex r'))"
      using w' by (simp add: word_at_def)
    from next_effect [OF ri', of tc] w' obtain e1 ts1
      where s: "setText tc (Str (ws ! nat (currentIndex r'))) (e', scrambler r') = Inr (promises e', e1, ts1)"
        and nx: "WordRotator_next tc (e', r')
             = Inr (promise_then (promises e') e1,
                    r'\<lparr>scrambler := ts1, currentIndex := (currentIndex r' + 1) mod int (length ws)\<rparr>)"
        and tm: "timers (promise_then (promises e') e1) = timers e'"
        and wt: "promises e' \<in> set (reactions (promise_then (promises e') e1))
                 \<or> promises e' \<in> set (microtasks (promise_then (promises e') e1))"
        and ur: "raf_pending e1 \<noteq> [] \<longrightarrow> promises e' \<notin> set (resolved (promise_then (promises e') e1))"
      by auto
    have rp: "raf_pending (promise_then (promises e') e1) = raf_pending e1"
      by (simp add: promise_then_def)
    let ?e2 = "promise_then (promises e') e1"
    let ?r2 = "r'\<lparr>scrambler := ts1, currentIndex := (currentIndex r' + 1) mod int (length ws)\<rparr>"
    have "\<exists>p e1 ts1 e2 r2.
                  setText tc (Str (ws ! nat (currentIndex r'))) (e', scrambler r') = Inr (p, e1, ts1)
                \<and> WordRotator_next tc (e', r') = Inr (e2, r2)
                \<and> scrambler r2 = ts1 \<and> words r2 = ws
                \<and> currentIndex r2 = (currentIndex r' + 1) mod int (length ws)
                \<and> timeoutId r2 = timeoutId r' \<and> timers e2 = timers e'
                \<and> (p \<in> set (reactions e2) \<or> p \<in> set (microtasks e2))
                \<and> (raf_pending e2 \<noteq> [] \<longrightarrow> p \<notin> set (resolved e2))"
      using s nx tm wt ur rp w'
      by (intro exI [of _ "promises e'"] exI [of _ e1] exI [of _ ts1] exI [of _ ?e2] exI [of _ ?r2])
         simp
    with rr w' rg' wa show "\<exists>e' r'. rrun tc evs (e, r) = Inr (e', r')
           \<and> words r' = ws \<and> 0 \<le> currentIndex r' \<and> currentIndex r' < int (length ws)
           \<and> word_at (words r') (currentIndex r') = Str (ws ! nat (currentIndex r'))
           \<and> (\<exists>p e1 ts1 e2 r2.
                  setText tc (Str (ws ! nat (currentIndex r'))) (e', scrambler r') = Inr (p, e1, ts1)
                \<and> WordRotator_next tc (e', r') = Inr (e2, r2)
                \<and> scrambler r2 = ts1 \<and> words r2 = ws
                \<and> currentIndex r2 = (currentIndex r' + 1) mod int (length ws)
                \<and> timeoutId r2 = timeoutId r' \<and> timers e2 = timers e'
                \<and> (p \<in> set (reactions e2) \<or> p \<in> set (microtasks e2))
                \<and> (raf_pending e2 \<noteq> [] \<longrightarrow> p \<notin> set (resolved e2)))"
      by (intro exI [of _ e'] exI [of _ r']) simp
  qed
  from n w rg t c fut show ?thesis
    by (intro exI [of _ e] exI [of _ r]) simp
qed

theorem rotator_index_invariant_witness:
  "[js ''Design'', js ''Develop''] \<noteq> ([] :: jsstring list)
   \<and> (\<exists>e r e' r'. WordRotator_new (\<lambda>m. m) (js ''Hi'') [js ''Design'', js ''Develop''] None (env0 (\<lambda>n. 1 / 16))
                      = Inr (e, r)
        \<and> currentIndex r = 1
        \<and> rrun (\<lambda>m. m) [RFrame, RFrame, RFrame, RFrame, Microtask, Timeout] (e, r) = Inr (e', r')
        \<and> 0 \<le> currentIndex r' \<and> currentIndex r' < 2
        \<and> currentIndex r' = 0 \<and> promises e' = 2)"
proof -
  have ne: "[js ''Design'', js ''Develop''] \<noteq> ([] :: jsstring list)" by simp
  from rotator_index_invariant [OF ne, of "\<lambda>m. m" "js ''Hi''" None "\<lambda>n. 1 / 16"] obtain e r
    where n: "WordRotator_new (\<lambda>m. m) (js ''Hi'') [js ''Design'', js ''Develop''] None (env0 (\<lambda>n. 1 / 16))
                      = Inr (e, r)"
      and c: "currentIndex r = 1 mod int (length [js ''Design'', js ''Develop''])"
      and fut: "\<forall>evs. \<exists>e' r'. rrun (\<lambda>m. m) evs (e, r) = Inr (e', r')
           \<and> 0 \<le> currentIndex r' \<and> currentIndex r' < int (length [js ''Design'', js ''Develop''])"
    by blast
  from fut obtain e' r'
    where rr: "rrun (\<lambda>m. m) [RFrame, RFrame, RFrame, RFrame, Microtask, Timeout] (e, r) = Inr (e', r')"
      and rg: "0 \<le> currentIndex r'" "currentIndex r' < int (length [js ''Design'', js ''Develop''])"
    by blast
  have v: "currentIndex r' = 0 \<and> promises e' = 2" using n rr by (auto simp: evaluate)
  have "\<exists>e r e' r'. WordRotator_new (\<lambda>m. m) (js ''Hi'') [js ''Design'', js ''Develop''] None (env0 (\<lambda>n. 1 / 16))
                      = Inr (e, r)
        \<and> currentIndex r = 1
        \<and> rrun (\<lambda>m. m) [RFrame, RFrame, RFrame, RFrame, Microtask, Timeout] (e, r) = Inr (e', r')
        \<and> 0 \<le> currentIndex r' \<and> currentIndex r' < 2
        \<and> currentIndex r' = 0 \<and> promises e' = 2"
    using n c rr rg v
    by (intro exI [of _ e] exI [of _ r] exI [of _ e'] exI [of _ r']) simp
  with ne show ?thesis by (intro conjI)
qed

end
